theory Spec2Isabelle
  imports Main "HOL-Library.Word"
begin

unbundle bit_operations_syntax

section \<open>The editor component as the plugin sees it\<close>

text \<open>
  Compare.cpp talks to the two Scintilla views through \<^verbatim>\<open>CallScintilla\<close>. Line numbers,
  byte positions and counters are C \<^verbatim>\<open>int\<close>s; they stay far from the 32-bit bounds (they
  are bounded by the size of a document), so the model uses \<open>int\<close>. Bit masks (marker
  sets, modification flags, diff masks) are 32-bit words, and so is the \<^verbatim>\<open>DWORD\<close> returned
  by \<^verbatim>\<open>GetTickCount\<close>, whose addition wraps around.
\<close>

type_synonym mask = "32 word"
type_synonym DWORD = "32 word"

text \<open>The action flags of a Scintilla modification notification (Scintilla.h).\<close>

definition SC_MOD_INSERTTEXT :: mask where "SC_MOD_INSERTTEXT = 0x1"
definition SC_MOD_DELETETEXT :: mask where "SC_MOD_DELETETEXT = 0x2"
definition SC_PERFORMED_USER :: mask where "SC_PERFORMED_USER = 0x10"
definition SC_PERFORMED_UNDO :: mask where "SC_PERFORMED_UNDO = 0x20"
definition SC_PERFORMED_REDO :: mask where "SC_PERFORMED_REDO = 0x40"
definition SC_MOD_BEFOREDELETE :: mask where "SC_MOD_BEFOREDELETE = 0x800"

text \<open>
  The part of one Scintilla view that the marker history reads and writes: the marker
  bitset of every line (\<^verbatim>\<open>SCI_MARKERGET\<close>), the "changed" indicator of every byte
  position, and the layout of the document (\<^verbatim>\<open>SCI_POSITIONFROMLINE\<close>,
  \<^verbatim>\<open>SCI_LINEFROMPOSITION\<close>).
\<close>

record SciView =
  viewMarkers :: "int \<Rightarrow> mask"
  changedIndicator :: "int \<Rightarrow> bool"
  positionFromLine :: "int \<Rightarrow> int"
  lineFromPosition :: "int \<Rightarrow> int"

text \<open>
  The two marker masks are constants of NppHelpers.h, which is not among the sources:
  they are parameters of the model.
\<close>

record MarkerMasks =
  MARKER_MASK_LINE :: mask
  MARKER_MASK_ALL :: mask

text \<open>
  \<^verbatim>\<open>SCI_MARKERPREVIOUS(lineStart, mask)\<close>: the first line at or before \<open>lineStart\<close> that
  carries a marker of the mask, \<open>-1\<close> when there is none.
\<close>

function markerPrevious :: "(int \<Rightarrow> mask) \<Rightarrow> int \<Rightarrow> mask \<Rightarrow> int" where
  "markerPrevious m lineStart msk =
     (if lineStart < 0 then -1
      else if m lineStart AND msk \<noteq> 0 then lineStart
      else markerPrevious m (lineStart - 1) msk)"
  by pat_completeness auto
termination
  by (relation "measure (\<lambda>(m, l, msk). nat (l + 1))") auto

declare markerPrevious.simps [simp del]

text \<open>\<^verbatim>\<open>SCI_MARKERADDSET(line, set)\<close> adds the markers of the set to the line.\<close>

definition markerAddSet :: "SciView \<Rightarrow> int \<Rightarrow> mask \<Rightarrow> SciView" where
  "markerAddSet view ln bits =
     view\<lparr>viewMarkers := (viewMarkers view)(ln := viewMarkers view ln OR bits)\<rparr>"

text \<open>
  Modelled from the spec: \<^verbatim>\<open>clearMarks(view, line)\<close> is defined in NppHelpers.cpp, which is
  not among the sources. The spec has it remove the diff markers of the line: the bits of
  \<^verbatim>\<open>MARKER_MASK_ALL\<close>; markers of other owners (bookmarks) stay.
\<close>

definition clearMarks :: "MarkerMasks \<Rightarrow> SciView \<Rightarrow> int \<Rightarrow> SciView" where
  "clearMarks mk view ln =
     view\<lparr>viewMarkers := (viewMarkers view)(ln := viewMarkers view ln AND NOT (MARKER_MASK_ALL mk))\<rparr>"

text \<open>
  Modelled from the spec: \<^verbatim>\<open>clearMarks(view, startLine, linesCount)\<close>, the overload of
  NppHelpers.cpp over a range of lines.
\<close>

definition clearMarksRange :: "MarkerMasks \<Rightarrow> SciView \<Rightarrow> int \<Rightarrow> int \<Rightarrow> SciView" where
  "clearMarksRange mk view startLn len =
     view\<lparr>viewMarkers := (\<lambda>ln. if startLn \<le> ln \<and> ln < startLn + len
                                then viewMarkers view ln AND NOT (MARKER_MASK_ALL mk)
                                else viewMarkers view ln)\<rparr>"

text \<open>
  Modelled from the spec: \<^verbatim>\<open>clearChangedIndicator(view, start, length)\<close> is defined in
  NppHelpers.cpp, which is not among the sources. The spec has it clear the "changed"
  visual indicator over the byte range, here the positions \<open>start \<le> p < start + length\<close>.
\<close>

definition clearChangedIndicator :: "SciView \<Rightarrow> int \<Rightarrow> int \<Rightarrow> SciView" where
  "clearChangedIndicator view start len =
     view\<lparr>changedIndicator := (\<lambda>p. if start \<le> p \<and> p < start + len then False
                                     else changedIndicator view p)\<rparr>"

section \<open>Marker history stack\<close>

text \<open>\<^verbatim>\<open>struct DeletedSection\<close> and its constructor (Compare.cpp, lines 102-115).\<close>

record DeletedSection =
  startLine :: int
  lineReplace :: bool
  restoreAction :: mask
  markers :: "mask list"

definition newDeletedSection :: "mask \<Rightarrow> int \<Rightarrow> int \<Rightarrow> DeletedSection" where
  "newDeletedSection action ln len =
     \<lparr> startLine = ln,
       lineReplace = False,
       restoreAction = (if action = SC_PERFORMED_UNDO then SC_PERFORMED_REDO else SC_PERFORMED_UNDO),
       markers = replicate (nat len) 0 \<rparr>"

text \<open>
  \<^verbatim>\<open>struct DeletedSectionsList\<close> (lines 122-139), with its constructor (line 124).
  \<open>skipPush\<close> is a C \<^verbatim>\<open>int\<close> that only counts unmatched inserts; the model leaves it
  unbounded.
\<close>

record DeletedSectionsList =
  skipPush :: int
  lastPushTimeMark :: DWORD
  sections :: "DeletedSection list"

definition newDeletedSectionsList :: DeletedSectionsList where
  "newDeletedSectionsList = \<lparr> skipPush = 0, lastPushTimeMark = 0, sections = [] \<rparr>"


text \<open>
  The \<^verbatim>\<open>for\<close> loop of \<^verbatim>\<open>push\<close> (lines 165-171). \<open>frm\<close> is the line the next
  \<^verbatim>\<open>SCI_MARKERPREVIOUS\<close> search starts at: \<open>endLine\<close> at first, \<open>line - 1\<close> after the
  iteration for \<open>line\<close>. Every line found at or after \<open>startLine\<close> has its marker bitset
  stored in the record; its markers are cleared unless it is \<open>endLine\<close>. With a negative
  \<open>startLine\<close> the result \<open>-1\<close> of a failed search passes the loop test for ever: the
  loop is a partial function, \<open>None\<close> when it does not return.
\<close>

partial_function (option) pushLoop ::
  "MarkerMasks \<Rightarrow> int \<Rightarrow> int \<Rightarrow> int \<Rightarrow> SciView \<times> mask list \<Rightarrow> (SciView \<times> mask list) option" where
  "pushLoop mk startLn endLn frm vm =
     (let ln = markerPrevious (viewMarkers (fst vm)) frm (MARKER_MASK_LINE mk) in
      if ln \<ge> startLn then
        pushLoop mk startLn endLn (ln - 1)
          (if ln \<noteq> endLn then clearMarks mk (fst vm) ln else fst vm,
           (snd vm)[nat (ln - startLn) := viewMarkers (fst vm) ln AND MARKER_MASK_ALL mk])
      else Some vm)"

text \<open>
  \<^verbatim>\<open>DeletedSectionsList::push\<close> (lines 142-176), on the list and the current view.
  \<open>tick\<close> is what \<^verbatim>\<open>GetTickCount\<close> returns at the end of the call.
\<close>

definition push ::
  "MarkerMasks \<Rightarrow> DWORD \<Rightarrow> mask \<Rightarrow> int \<Rightarrow> int \<Rightarrow> DeletedSectionsList \<times> SciView
     \<Rightarrow> (DeletedSectionsList \<times> SciView) option" where
  "push mk tick currAction startLn endLn st =
     (let dsl = fst st; view = snd st in
      if endLn \<le> startLn then Some st
      else if skipPush dsl \<noteq> 0 then Some (dsl\<lparr>skipPush := skipPush dsl - 1\<rparr>, view)
      else if sections dsl \<noteq> [] \<and> restoreAction (last (sections dsl)) = currAction
              \<and> lineReplace (last (sections dsl)) then Some st
      else
        let delSection = newDeletedSection currAction startLn (endLn - startLn + 1);
            startPos = positionFromLine view startLn;
            view1 = clearChangedIndicator view startPos (positionFromLine view endLn - startPos)
        in case pushLoop mk startLn endLn endLn (view1, markers delSection) of
             None \<Rightarrow> None
           | Some vm \<Rightarrow>
               Some (dsl\<lparr>sections := sections dsl @ [delSection\<lparr>markers := snd vm\<rparr>],
                         lastPushTimeMark := tick\<rparr>,
                     fst vm))"

text \<open>
  The \<^verbatim>\<open>for\<close> loop of \<^verbatim>\<open>pop\<close> (lines 211-217): line \<open>ln\<close> is \<open>last.startLine + i\<close>, the
  list is what is left of \<open>last.markers\<close> from index \<open>i\<close> on.
\<close>

fun popLoop :: "MarkerMasks \<Rightarrow> int \<Rightarrow> mask list \<Rightarrow> SciView \<Rightarrow> SciView" where
  "popLoop mk ln [] view = view"
| "popLoop mk ln (x # xs) view =
     popLoop mk (ln + 1) xs
       (if x \<noteq> 0 then markerAddSet (clearMarks mk view ln) ln x else clearMarks mk view ln)"

text \<open>
  \<^verbatim>\<open>DeletedSectionsList::pop\<close> (lines 179-220). \<open>tick\<close> is what \<^verbatim>\<open>GetTickCount\<close>
  returns when the restore action differs; the comparison and the addition are unsigned
  32-bit.
\<close>

definition pop ::
  "MarkerMasks \<Rightarrow> DWORD \<Rightarrow> mask \<Rightarrow> int \<Rightarrow> DeletedSectionsList \<times> SciView
     \<Rightarrow> DeletedSectionsList \<times> SciView" where
  "pop mk tick currAction startLn st =
     (let dsl = fst st; view = snd st in
      if sections dsl = [] then (dsl\<lparr>skipPush := skipPush dsl + 1\<rparr>, view)
      else
        let lst = last (sections dsl) in
        if restoreAction lst \<noteq> currAction then
          (if tick < lastPushTimeMark dsl + 40
           then (dsl\<lparr>sections := butlast (sections dsl) @ [lst\<lparr>lineReplace := True\<rparr>]\<rparr>, view)
           else (dsl\<lparr>skipPush := skipPush dsl + 1\<rparr>, view))
        else if startLine lst \<noteq> startLn then st
        else
          let linesCount = int (length (markers lst));
              startPos = positionFromLine view (startLine lst);
              view1 = clearChangedIndicator view startPos
                        (positionFromLine view (startLine lst + linesCount) - startPos)
          in (dsl\<lparr>sections := butlast (sections dsl)\<rparr>,
              popLoop mk (startLine lst) (markers lst) view1))"

section \<open>Compared files, pairs and the registry\<close>

text \<open>
  \<^verbatim>\<open>AlignmentInfo_t\<close> is declared in Engine.h, which is not among the sources; Compare.cpp
  reads the fields \<^verbatim>\<open>main.line\<close>, \<^verbatim>\<open>main.diffMask\<close>, \<^verbatim>\<open>sub.line\<close> and \<^verbatim>\<open>sub.diffMask\<close> of its
  elements.
\<close>

record AlignmentViewData =
  line :: int
  diffMask :: mask

record AlignmentPair =
  main :: AlignmentViewData
  sub :: AlignmentViewData

type_synonym AlignmentInfo_t = "AlignmentPair list"

datatype Temp_t = NO_TEMP | LAST_SAVED_TEMP | SVN_TEMP | GIT_TEMP

text \<open>\<^verbatim>\<open>class ComparedFile\<close> (lines 236-264), without the file name.\<close>

record ComparedFile =
  isTemp :: Temp_t
  isNew :: bool
  originalViewId :: int
  originalPos :: int
  compareViewId :: int
  buffId :: int
  sciDoc :: int
  deletedSections :: DeletedSectionsList

text \<open>\<^verbatim>\<open>class ComparedPair\<close> (lines 271-297), without the selections.\<close>

record ComparedPair =
  file0 :: ComparedFile
  file1 :: ComparedFile
  relativePos :: int
  isFullCompare :: bool
  spacesIgnored :: bool
  caseIgnored :: bool
  movesDetected :: bool
  alignmentInfo :: AlignmentInfo_t

type_synonym CompareList_t = "ComparedPair list"

text \<open>
  The accessors of a pair return references (lines 867-894); the model has a reader and,
  where the caller writes through the reference, a writer.
\<close>

definition getFileByBuffId :: "ComparedPair \<Rightarrow> int \<Rightarrow> ComparedFile" where
  "getFileByBuffId p b = (if buffId (file0 p) = b then file0 p else file1 p)"

definition getOtherFileByBuffId :: "ComparedPair \<Rightarrow> int \<Rightarrow> ComparedFile" where
  "getOtherFileByBuffId p b = (if buffId (file0 p) = b then file1 p else file0 p)"

definition setFileByBuffId :: "ComparedPair \<Rightarrow> int \<Rightarrow> ComparedFile \<Rightarrow> ComparedPair" where
  "setFileByBuffId p b f = (if buffId (file0 p) = b then p\<lparr>file0 := f\<rparr> else p\<lparr>file1 := f\<rparr>)"

definition getOldFile :: "ComparedPair \<Rightarrow> ComparedFile" where
  "getOldFile p = (if isNew (file0 p) then file1 p else file0 p)"

definition getNewFile :: "ComparedPair \<Rightarrow> ComparedFile" where
  "getNewFile p = (if isNew (file0 p) then file0 p else file1 p)"

text \<open>
  \<^verbatim>\<open>getCompare\<close> and \<^verbatim>\<open>getCompareBySciDoc\<close> (lines 1071-1092): the position of the first
  pair that holds the buffer (the document), \<open>None\<close> for \<^verbatim>\<open>compareList.end()\<close>.
\<close>

fun getCompare :: "int \<Rightarrow> CompareList_t \<Rightarrow> nat option" where
  "getCompare b [] = None"
| "getCompare b (p # ps) =
     (if buffId (file0 p) = b \<or> buffId (file1 p) = b then Some 0
      else map_option Suc (getCompare b ps))"



section \<open>Edit notifications and the marker history\<close>

text \<open>The fields of \<^verbatim>\<open>SCNotification\<close> that the handlers read.\<close>

record SCNotification =
  modificationType :: mask
  position :: int
  textLength :: int
  notifiedLinesAdded :: int

text \<open>
  \<^verbatim>\<open>onSciModified\<close> (lines 2307-2343), called for the current buffer \<open>currentBuffId\<close> and
  the Scintilla view that shows it. The handler writes the history of the compared file
  and, through \<^verbatim>\<open>push\<close> and \<^verbatim>\<open>pop\<close>, the markers of the view.
\<close>

definition onSciModified ::
  "MarkerMasks \<Rightarrow> DWORD \<Rightarrow> SCNotification \<Rightarrow> int \<Rightarrow> CompareList_t \<times> SciView
     \<Rightarrow> (CompareList_t \<times> SciView) option" where
  "onSciModified mk tick notifyCode currentBuffId st =
     (let compareList = fst st; view = snd st in
      case getCompare currentBuffId compareList of
        None \<Rightarrow> Some st
      | Some k \<Rightarrow>
          let cmpPair = compareList ! k;
              file = getFileByBuffId cmpPair currentBuffId;
              currAction = modificationType notifyCode AND
                (SC_PERFORMED_USER OR SC_PERFORMED_UNDO OR SC_PERFORMED_REDO);
              startLn = lineFromPosition view (position notifyCode)
          in
          if modificationType notifyCode AND SC_MOD_BEFOREDELETE \<noteq> 0 then
            let endLn = lineFromPosition view (position notifyCode + textLength notifyCode) in
            if endLn \<le> startLn then Some st
            else
              (case push mk tick currAction startLn endLn (deletedSections file, view) of
                 None \<Rightarrow> None
               | Some r \<Rightarrow>
                   Some (compareList[k := setFileByBuffId cmpPair currentBuffId
                                            (file\<lparr>deletedSections := fst r\<rparr>)],
                         snd r))
          else if modificationType notifyCode AND SC_MOD_INSERTTEXT \<noteq> 0
                  \<and> notifiedLinesAdded notifyCode \<noteq> 0 then
            let r = pop mk tick currAction startLn (deletedSections file, view) in
            Some (compareList[k := setFileByBuffId cmpPair currentBuffId
                                     (file\<lparr>deletedSections := fst r\<rparr>)],
                  snd r)
          else Some st)"

section \<open>Incremental re-compare scheduler\<close>

text \<open>
  Modelled from the spec: \<^verbatim>\<open>DelayedWork\<close>, the base class of the delayed actions, is
  declared in Tools.h, which is not among the sources. The spec has a delayed action be a
  deferred callback with a delay in milliseconds that can be cancelled before it fires;
  a slot holds at most one pending action, and arming it again replaces the delay. The
  timer is \<open>None\<close> when idle and \<open>Some d\<close> when armed with the delay \<open>d\<close>;
  \<open>timerCalls\<close> keeps the calls made on the slot, in their order: a cancellation, the
  arming of an idle slot, or the arming of a pending slot, which replaces its delay. So a
  cancellation followed by arming can be told from arming alone.
  \<^verbatim>\<open>class DelayedUpdate\<close> (lines 390-403) adds the four fields. The three counters are C
  \<^verbatim>\<open>int\<close>s bounded by the size of a document; the model leaves them unbounded.
\<close>

datatype TimerCall = Cancelled | Armed nat | Replaced nat

record DelayedUpdate =
  timer :: "nat option"
  timerCalls :: "TimerCall list"
  changePos :: int
  linesAdded :: int
  linesDeleted :: int
  fullCompare :: bool

definition post :: "nat \<Rightarrow> DelayedUpdate \<Rightarrow> DelayedUpdate" where
  "post delay w =
     w\<lparr>timer := Some delay,
       timerCalls := timerCalls w @ [if timer w = None then Armed delay else Replaced delay]\<rparr>"

definition cancel :: "DelayedUpdate \<Rightarrow> DelayedUpdate" where
  "cancel w = w\<lparr>timer := None, timerCalls := timerCalls w @ [Cancelled]\<rparr>"

definition isPending :: "DelayedUpdate \<Rightarrow> bool" where
  "isPending w \<longleftrightarrow> timer w \<noteq> None"

text \<open>The constructor of \<^verbatim>\<open>DelayedUpdate\<close> (line 393); \<open>changePos\<close> starts unset.\<close>

definition newDelayedUpdate :: "int \<Rightarrow> DelayedUpdate" where
  "newDelayedUpdate unset =
     \<lparr> timer = None, timerCalls = [], changePos = unset, linesAdded = 0, linesDeleted = 0,
       fullCompare = False \<rparr>"

text \<open>
  \<^verbatim>\<open>onSciModifiedUpdate\<close> (lines 2346-2393), for the current buffer and the view that
  shows it, on the view and the global \<^verbatim>\<open>delayedUpdate\<close>.
\<close>

definition onSciModifiedUpdate ::
  "MarkerMasks \<Rightarrow> SCNotification \<Rightarrow> int \<Rightarrow> CompareList_t \<Rightarrow> SciView \<times> DelayedUpdate
     \<Rightarrow> SciView \<times> DelayedUpdate" where
  "onSciModifiedUpdate mk notifyCode currentBuffId compareList st =
     (let view = fst st; delayedUpdate = snd st in
      case getCompare currentBuffId compareList of
        None \<Rightarrow> st
      | Some k \<Rightarrow>
          if modificationType notifyCode AND SC_MOD_BEFOREDELETE \<noteq> 0 then
            let startLn = lineFromPosition view (position notifyCode);
                endLn = lineFromPosition view (position notifyCode + textLength notifyCode)
            in if endLn > startLn
               then (clearMarksRange mk view startLn (endLn - startLn + 1), delayedUpdate)
               else st
          else if modificationType notifyCode AND (SC_MOD_INSERTTEXT OR SC_MOD_DELETETEXT) \<noteq> 0 then
            if \<not> fullCompare delayedUpdate then
              let du1 =
                    (if \<not> isPending delayedUpdate
                     then delayedUpdate\<lparr>changePos := position notifyCode\<rparr>
                     else
                       let c = cancel delayedUpdate in
                       if changePos c > position notifyCode
                       then c\<lparr>changePos := position notifyCode\<rparr> else c);
                  du2 =
                    (if modificationType notifyCode AND SC_MOD_INSERTTEXT \<noteq> 0
                     then du1\<lparr>linesAdded := linesAdded du1 + notifiedLinesAdded notifyCode\<rparr>
                     else du1\<lparr>linesDeleted := linesDeleted du1 + (- notifiedLinesAdded notifyCode)\<rparr>)
              in (view, post 10 du2)
            else st
          else st)"

section \<open>Alignment engine\<close>

text \<open>
  The two view identifiers of the Notepad++ plugin interface, and the Scintilla messages
  the alignment engine sends, as functions of an editor state \<open>'s\<close> and a view. How the
  editor maps document lines to visible lines (folding, wrapping, annotations) is its own
  business: the messages are parameters of the model. \<^verbatim>\<open>addBlankSection\<close> is a function
  of NppHelpers.cpp, which is not among the sources, and is a parameter as well.
\<close>

definition MAIN_VIEW :: int where "MAIN_VIEW = 0"
definition SUB_VIEW :: int where "SUB_VIEW = 1"

record 's Scintilla =
  SCI_GETFIRSTVISIBLELINE :: "'s \<Rightarrow> int \<Rightarrow> int"
  SCI_LINESONSCREEN :: "'s \<Rightarrow> int \<Rightarrow> int"
  SCI_DOCLINEFROMVISIBLE :: "'s \<Rightarrow> int \<Rightarrow> int \<Rightarrow> int"
  SCI_VISIBLEFROMDOCLINE :: "'s \<Rightarrow> int \<Rightarrow> int \<Rightarrow> int"
  SCI_GETLINECOUNT :: "'s \<Rightarrow> int \<Rightarrow> int"
  SCI_ANNOTATIONGETLINES :: "'s \<Rightarrow> int \<Rightarrow> int \<Rightarrow> int"
  SCI_FOLDALL_EXPAND :: "'s \<Rightarrow> int \<Rightarrow> 's"
  SCI_ANNOTATIONSETTEXT_NULL :: "'s \<Rightarrow> int \<Rightarrow> int \<Rightarrow> 's"
  addBlankSection :: "'s \<Rightarrow> int \<Rightarrow> int \<Rightarrow> int \<Rightarrow> 's"

text \<open>
  \<^verbatim>\<open>alignment.*pView\<close>: the side of an alignment record that belongs to a view
  (line 1108).
\<close>

definition pView :: "int \<Rightarrow> AlignmentPair \<Rightarrow> AlignmentViewData" where
  "pView view a = (if view = MAIN_VIEW then main a else sub a)"

text \<open>The test of \<^verbatim>\<open>isAlignmentNeeded\<close> on one record (lines 1122-1124).\<close>

definition misaligned :: "'s Scintilla \<Rightarrow> 's \<Rightarrow> AlignmentPair \<Rightarrow> bool" where
  "misaligned sci st a \<longleftrightarrow>
     diffMask (main a) = diffMask (sub a) \<and>
     SCI_VISIBLEFROMDOCLINE sci st MAIN_VIEW (line (main a)) \<noteq>
     SCI_VISIBLEFROMDOCLINE sci st SUB_VIEW (line (sub a))"

text \<open>The range-based \<^verbatim>\<open>for\<close> loop of \<^verbatim>\<open>isAlignmentNeeded\<close> (lines 1118-1133).\<close>

fun isAlignmentNeededLoop ::
  "'s Scintilla \<Rightarrow> 's \<Rightarrow> int \<Rightarrow> int \<Rightarrow> int \<Rightarrow> AlignmentInfo_t \<Rightarrow> bool" where
  "isAlignmentNeededLoop sci st view firstLine lastLine [] = False"
| "isAlignmentNeededLoop sci st view firstLine lastLine (a # rest) =
     (if line (pView view a) \<ge> firstLine \<and> misaligned sci st a then True
      else if line (pView view a) > lastLine then False
      else isAlignmentNeededLoop sci st view firstLine lastLine rest)"

text \<open>\<^verbatim>\<open>isAlignmentNeeded\<close> (lines 1106-1136).\<close>

definition isAlignmentNeeded :: "'s Scintilla \<Rightarrow> 's \<Rightarrow> int \<Rightarrow> AlignmentInfo_t \<Rightarrow> bool" where
  "isAlignmentNeeded sci st view al =
     (let firstLine0 = SCI_GETFIRSTVISIBLELINE sci st view;
          lastLine0 = firstLine0 + SCI_LINESONSCREEN sci st view;
          firstLine = SCI_DOCLINEFROMVISIBLE sci st view firstLine0;
          lastLine = SCI_DOCLINEFROMVISIBLE sci st view lastLine0
      in isAlignmentNeededLoop sci st view firstLine lastLine al)"

text \<open>
  A call of \<^verbatim>\<open>addBlankSection\<close> as \<^verbatim>\<open>alignDiffs\<close> issues it: the index of the alignment
  record the loop is at, and the three arguments.
\<close>

record BlankCall =
  atRecord :: nat
  inView :: int
  beforeLine :: int
  blankLength :: int

text \<open>
  The body of the \<^verbatim>\<open>for\<close> loop of \<^verbatim>\<open>alignDiffs\<close> (lines 1153-1178) for the record at
  index \<open>i\<close>: the editor state it leaves and the call of \<^verbatim>\<open>addBlankSection\<close> it makes, if
  any (\<^verbatim>\<open>continue\<close> and a zero \<open>mismatchLen\<close> make none).
\<close>

definition alignRecord :: "'s Scintilla \<Rightarrow> AlignmentInfo_t \<Rightarrow> nat \<Rightarrow> 's \<Rightarrow> 's \<times> BlankCall option" where
  "alignRecord sci al i st =
     (let st1 = (if line (main (al ! i)) \<noteq> 0 \<and>
                    SCI_ANNOTATIONGETLINES sci st MAIN_VIEW (line (main (al ! i)) - 1) \<noteq> 0
                 then SCI_ANNOTATIONSETTEXT_NULL sci st MAIN_VIEW (line (main (al ! i)) - 1) else st);
          st2 = (if line (sub (al ! i)) \<noteq> 0 \<and>
                    SCI_ANNOTATIONGETLINES sci st1 SUB_VIEW (line (sub (al ! i)) - 1) \<noteq> 0
                 then SCI_ANNOTATIONSETTEXT_NULL sci st1 SUB_VIEW (line (sub (al ! i)) - 1) else st1);
          mismatchLen = SCI_VISIBLEFROMDOCLINE sci st2 MAIN_VIEW (line (main (al ! i))) -
                        SCI_VISIBLEFROMDOCLINE sci st2 SUB_VIEW (line (sub (al ! i)))
      in
      if mismatchLen > 0 then
        (if i + 1 < length al \<and> line (sub (al ! i)) = line (sub (al ! (i + 1)))
         then (st2, None)
         else (addBlankSection sci st2 SUB_VIEW (line (sub (al ! i))) mismatchLen,
               Some \<lparr> atRecord = i, inView = SUB_VIEW, beforeLine = line (sub (al ! i)),
                      blankLength = mismatchLen \<rparr>))
      else if mismatchLen < 0 then
        (if i + 1 < length al \<and> line (main (al ! i)) = line (main (al ! (i + 1)))
         then (st2, None)
         else (addBlankSection sci st2 MAIN_VIEW (line (main (al ! i))) (- mismatchLen),
               Some \<lparr> atRecord = i, inView = MAIN_VIEW, beforeLine = line (main (al ! i)),
                      blankLength = - mismatchLen \<rparr>))
      else (st2, None))"

text \<open>
  The \<^verbatim>\<open>for\<close> loop of \<^verbatim>\<open>alignDiffs\<close> (lines 1150-1179), from index \<open>i\<close> on. It returns
  the editor state and the calls of \<^verbatim>\<open>addBlankSection\<close> in the order they are made.
\<close>

function alignDiffsLoop ::
  "'s Scintilla \<Rightarrow> AlignmentInfo_t \<Rightarrow> int \<Rightarrow> int \<Rightarrow> nat \<Rightarrow> 's \<Rightarrow> 's \<times> BlankCall list" where
  "alignDiffsLoop sci al mainEndLine subEndLine i st =
     (if i < length al \<and> line (main (al ! i)) \<le> mainEndLine \<and> line (sub (al ! i)) \<le> subEndLine
      then
        let step = alignRecord sci al i st;
            r = alignDiffsLoop sci al mainEndLine subEndLine (i + 1) (fst step)
        in (fst r, (case snd step of None \<Rightarrow> snd r | Some c \<Rightarrow> c # snd r))
      else (st, []))"
  by pat_completeness auto
termination
  by (relation "measure (\<lambda>(sci, al, mainEndLine, subEndLine, i, st). length al - i)") auto

declare alignDiffsLoop.simps [simp del]

text \<open>\<^verbatim>\<open>alignDiffs\<close> (lines 1139-1180).\<close>

definition alignDiffs :: "'s Scintilla \<Rightarrow> AlignmentInfo_t \<Rightarrow> 's \<Rightarrow> 's \<times> BlankCall list" where
  "alignDiffs sci al st =
     (let st1 = SCI_FOLDALL_EXPAND sci st MAIN_VIEW;
          st2 = SCI_FOLDALL_EXPAND sci st1 SUB_VIEW;
          mainEndLine = SCI_GETLINECOUNT sci st2 MAIN_VIEW - 1;
          subEndLine = SCI_GETLINECOUNT sci st2 SUB_VIEW - 1
      in alignDiffsLoop sci al mainEndLine subEndLine 0 st2)"

section \<open>Restoring the files of a pair\<close>

text \<open>
  The tab bars of Notepad++ as \<^verbatim>\<open>restore\<close> and \<^verbatim>\<open>restoreFiles\<close> see them: the buffers
  of each view in tab order, and the active buffer. The queries and commands are those
  of the host: \<^verbatim>\<open>viewIdFromBuffId\<close> and \<^verbatim>\<open>posFromBuffId\<close> give the view and the tab
  index of an open buffer, \<^verbatim>\<open>IDM_VIEW_GOTO_ANOTHER_VIEW\<close> moves the active buffer to the end
  of the other view's tab bar, \<^verbatim>\<open>IDM_VIEW_TAB_MOVEBACKWARD\<close> swaps the active tab with the
  one before it (nothing happens to the first tab), and \<^verbatim>\<open>IDM_FILE_CLOSE\<close> removes the
  active buffer. Clearing a window touches no tab.
\<close>

record Npp =
  tabs :: "int \<Rightarrow> int list"
  activeBuff :: int

definition otherView :: "int \<Rightarrow> int" where
  "otherView view = (if view = MAIN_VIEW then SUB_VIEW else MAIN_VIEW)"

definition viewIdFromBuffId :: "Npp \<Rightarrow> int \<Rightarrow> int" where
  "viewIdFromBuffId h b = (if b \<in> set (tabs h MAIN_VIEW) then MAIN_VIEW else SUB_VIEW)"

definition posFromBuffId :: "Npp \<Rightarrow> int \<Rightarrow> int" where
  "posFromBuffId h b = int (length (takeWhile (\<lambda>x. x \<noteq> b) (tabs h (viewIdFromBuffId h b))))"

definition isOpen :: "Npp \<Rightarrow> int \<Rightarrow> bool" where
  "isOpen h b \<longleftrightarrow> b \<in> set (tabs h MAIN_VIEW) \<or> b \<in> set (tabs h SUB_VIEW)"

definition activateBufferID :: "int \<Rightarrow> Npp \<Rightarrow> Npp" where
  "activateBufferID b h = h\<lparr>activeBuff := b\<rparr>"

definition gotoAnotherView :: "Npp \<Rightarrow> Npp" where
  "gotoAnotherView h =
     (let b = activeBuff h; v = viewIdFromBuffId h b in
      h\<lparr>tabs := (tabs h)(v := removeAll b (tabs h v), otherView v := tabs h (otherView v) @ [b])\<rparr>)"

fun moveTabBackward :: "int \<Rightarrow> int list \<Rightarrow> int list" where
  "moveTabBackward b (x # y # zs) =
     (if y = b then y # x # zs else x # moveTabBackward b (y # zs))"
| "moveTabBackward b xs = xs"

definition tabMoveBackward :: "Npp \<Rightarrow> Npp" where
  "tabMoveBackward h =
     (let b = activeBuff h; v = viewIdFromBuffId h b in
      h\<lparr>tabs := (tabs h)(v := moveTabBackward b (tabs h v))\<rparr>)"

definition fileClose :: "Npp \<Rightarrow> Npp" where
  "fileClose h =
     (let b = activeBuff h; v = viewIdFromBuffId h b in
      h\<lparr>tabs := (tabs h)(v := removeAll b (tabs h v))\<rparr>)"

text \<open>
  \<^verbatim>\<open>ComparedFile::close\<close> (lines 815-822) and \<^verbatim>\<open>ComparedFile::restore\<close> (lines 825-852),
  on the tab bars. The \<^verbatim>\<open>for\<close> loop of \<^verbatim>\<open>restore\<close> runs \<open>currentPos - originalPos\<close>
  times; it is only reached with \<open>originalPos < currentPos\<close>.
\<close>

definition closeFile :: "ComparedFile \<Rightarrow> Npp \<Rightarrow> Npp" where
  "closeFile f h = fileClose (activateBufferID (buffId f) h)"

definition restore :: "ComparedFile \<Rightarrow> Npp \<Rightarrow> Npp" where
  "restore f h =
     (if isTemp f \<noteq> NO_TEMP then closeFile f h
      else
        let h1 = activateBufferID (buffId f) h in
        if viewIdFromBuffId h1 (buffId f) \<noteq> originalViewId f then
          let h2 = gotoAnotherView h1 in
          if \<not> isOpen h2 (buffId f) then h2
          else
            let currentPos = posFromBuffId h2 (buffId f) in
            if originalPos f \<ge> currentPos then h2
            else (tabMoveBackward ^^ nat (currentPos - originalPos f)) h2
        else h1)"

text \<open>
  The first part of \<^verbatim>\<open>ComparedPair::restoreFiles\<close> (lines 941-967): the update of the
  moved file's \<open>originalPos\<close>. \<open>biasIs0\<close> tells that \<^verbatim>\<open>file[0]\<close> is the bias file.
\<close>

definition updateMovedPos :: "ComparedPair \<Rightarrow> Npp \<Rightarrow> ComparedPair" where
  "updateMovedPos p h =
     (if relativePos p \<noteq> 0 then
        let biasIs0 = (viewIdFromBuffId h (buffId (file0 p)) = originalViewId (file0 p));
            biasFile = (if biasIs0 then file0 p else file1 p);
            movedFile = (if biasIs0 then file1 p else file0 p)
        in
        if originalPos biasFile > originalPos movedFile then
          let newPos = posFromBuffId h (buffId biasFile) in
          if newPos \<noteq> originalPos biasFile \<and> newPos < originalPos movedFile
          then (if biasIs0 then p\<lparr>file1 := movedFile\<lparr>originalPos := newPos\<rparr>\<rparr>
                else p\<lparr>file0 := movedFile\<lparr>originalPos := newPos\<rparr>\<rparr>)
          else p
        else p
      else p)"

text \<open>\<^verbatim>\<open>ComparedPair::restoreFiles\<close> (lines 939-979).\<close>

definition restoreFiles :: "ComparedPair \<Rightarrow> int \<Rightarrow> Npp \<Rightarrow> ComparedPair \<times> Npp" where
  "restoreFiles p currentBuffId h =
     (let p1 = updateMovedPos p h in
      if currentBuffId = - 1
      then (p1, restore (file1 p1) (restore (file0 p1) h))
      else (p1, restore (getFileByBuffId p1 currentBuffId)
                  (restore (getOtherFileByBuffId p1 currentBuffId) h)))"

section \<open>The compare command\<close>

text \<open>
  \<^verbatim>\<open>CompareResult\<close> is declared in Engine.h, which is not among the sources: \<^verbatim>\<open>compare\<close>
  tells \<^verbatim>\<open>COMPARE_MISMATCH\<close> and \<^verbatim>\<open>COMPARE_MATCH\<close> from every other value (its
  \<^verbatim>\<open>default\<close> branch), which the spec calls an error. \<^verbatim>\<open>UserSettings\<close> is declared in
  UserSettings.h, not among the sources either; these are the fields the modelled
  functions read.
\<close>

datatype CompareResult = COMPARE_ERROR | COMPARE_MATCH | COMPARE_MISMATCH

record UserSettings =
  OldFileViewId :: int
  EncodingsCheck :: bool
  PromptToCloseOnMatch :: bool
  IgnoreSpaces :: bool
  IgnoreCase :: bool
  DetectMoves :: bool

text \<open>
  The globals that \<^verbatim>\<open>compare\<close> works on: the registry \<^verbatim>\<open>compareList\<close>, the pending
  \<^verbatim>\<open>newCompare\<close> (a \<^verbatim>\<open>unique_ptr\<close>, \<open>None\<close> when empty), and the buffer that is current in
  Notepad++ (\<^verbatim>\<open>getCurrentBuffId()\<close>; \<^verbatim>\<open>activateBufferID\<close> sets it).
\<close>

record Session =
  compareList :: CompareList_t
  newCompare :: "ComparedPair option"
  curBuffId :: int

text \<open>
  What Notepad++ reports when \<^verbatim>\<open>initFromCurrent\<close> asks about the current buffer, and
  everything else the host, the user and the compare engine answer during one call of
  \<^verbatim>\<open>compare\<close>. \<open>garbage\<close> stands for the fields of a fresh \<^verbatim>\<open>NewCompare\<close> that its
  constructor leaves unset.
\<close>

record HostReadings =
  rdViewId :: int
  rdPos :: int
  rdDocId :: int

record CompareEnv =
  singleView :: bool
  numberOfFiles :: int
  otherViewDocId :: int
  firstReadings :: HostReadings
  switchedBuffId :: int
  secondReadings :: HostReadings
  selectionsValid :: bool
  encodingOK :: bool
  docIdAfterPositioning :: "ComparedFile \<Rightarrow> int"
  engineAlignment :: AlignmentInfo_t
  cmpResult :: CompareResult
  choiceYes :: bool
  garbage :: ComparedPair











text \<open>
  \<^verbatim>\<open>ComparedFile::updateView\<close> (lines 771-774) and what \<^verbatim>\<open>ComparedPair::positionFiles\<close>
  (lines 897-936) writes to the pair; the document of a file after it was moved to its
  compare view is the editor's answer.
\<close>

definition updateView :: "UserSettings \<Rightarrow> ComparedFile \<Rightarrow> ComparedFile" where
  "updateView settings f =
     f\<lparr>compareViewId :=
         (if isNew f then (if OldFileViewId settings = MAIN_VIEW then SUB_VIEW else MAIN_VIEW)
          else OldFileViewId settings)\<rparr>"

definition positionFiles :: "UserSettings \<Rightarrow> CompareEnv \<Rightarrow> ComparedPair \<Rightarrow> ComparedPair" where
  "positionFiles settings env p =
     (let p1 = p\<lparr>file0 := updateView settings (file0 p), file1 := updateView settings (file1 p)\<rparr>;
          oldFile = getOldFile p1;
          newFile = getNewFile p1;
          p2 = p1\<lparr>relativePos :=
                   (if originalViewId oldFile \<noteq> originalViewId newFile then 0
                    else if originalViewId oldFile = compareViewId oldFile
                    then originalPos newFile - originalPos oldFile
                    else originalPos oldFile - originalPos newFile)\<rparr>
      in p2\<lparr>file0 := (file0 p2)\<lparr>sciDoc := docIdAfterPositioning env (file0 p2)\<rparr>,
            file1 := (file1 p2)\<lparr>sciDoc := docIdAfterPositioning env (file1 p2)\<rparr>\<rparr>)"







section \<open>Sample states\<close>

text \<open>
  Sample values the theorems below are instantiated at: two masks, a view of a document
  with ten bytes a line whose lines 2 and 4 carry a line marker and a symbol marker, and a
  history with one record.
\<close>

definition sampleMasks :: MarkerMasks where
  "sampleMasks = \<lparr> MARKER_MASK_LINE = 0x0F, MARKER_MASK_ALL = 0xFF \<rparr>"

definition sampleView :: SciView where
  "sampleView =
     \<lparr> viewMarkers = (\<lambda>l. if l = 2 then 0x11 else if l = 4 then 0x22 else 0),
       changedIndicator = (\<lambda>p. True),
       positionFromLine = (\<lambda>l. 10 * l),
       lineFromPosition = (\<lambda>p. p div 10) \<rparr>"

definition sampleHistory :: DeletedSectionsList where
  "sampleHistory =
     \<lparr> skipPush = 0, lastPushTimeMark = 1000,
       sections = [\<lparr> startLine = 2, lineReplace = False, restoreAction = SC_PERFORMED_UNDO,
                     markers = [0x11, 0, 0x22] \<rparr>] \<rparr>"

text \<open>
  The sample view with a symbol marker and no line marker on line 3, and the states that
  some runs of deletions and undos reach from the empty history on the sample view: the
  deletion of lines 2 to 4 recorded at tick 1000; after it the deletion of lines 6 to 8
  recorded at tick 5000 and undone at tick 5005; the deletion of lines 2 to 4 recorded
  16 ticks, and 1000 ticks, before the 32-bit tick counter wraps; and the deletion of lines
  2 to 4 of the view with the symbol marker.
\<close>

definition symbolOnlyView :: SciView where
  "symbolOnlyView =
     sampleView\<lparr>viewMarkers := (\<lambda>l. if l = 2 then 0x11 else if l = 3 then 0x30
                                   else if l = 4 then 0x22 else 0)\<rparr>"

definition afterFirstDeletion :: "DeletedSectionsList \<times> SciView" where
  "afterFirstDeletion =
     the (push sampleMasks 1000 SC_PERFORMED_USER 2 4 (newDeletedSectionsList, sampleView))"

definition afterSecondDeletion :: "DeletedSectionsList \<times> SciView" where
  "afterSecondDeletion = the (push sampleMasks 5000 SC_PERFORMED_USER 6 8 afterFirstDeletion)"

definition afterSecondUndone :: "DeletedSectionsList \<times> SciView" where
  "afterSecondUndone = pop sampleMasks 5005 SC_PERFORMED_UNDO 6 afterSecondDeletion"


definition afterEarlierDeletion :: "DeletedSectionsList \<times> SciView" where
  "afterEarlierDeletion =
     the (push sampleMasks 4294966296 SC_PERFORMED_USER 2 4 (newDeletedSectionsList, sampleView))"

definition afterSymbolDeletion :: "DeletedSectionsList \<times> SciView" where
  "afterSymbolDeletion =
     the (push sampleMasks 1000 SC_PERFORMED_USER 2 4 (newDeletedSectionsList, symbolOnlyView))"

text \<open>
  A registry with one pair: the old file, buffer 7, in the main view (view 0) and the new
  file, buffer 8, in the sub view (view 1); and the notification of a user deleting bytes
  20 to 40, which is lines 2 to 4 of the sample view.
\<close>

definition sampleOldFile :: ComparedFile where
  "sampleOldFile =
     \<lparr> isTemp = NO_TEMP, isNew = False, originalViewId = 0, originalPos = 2, compareViewId = 0,
       buffId = 7, sciDoc = 70, deletedSections = newDeletedSectionsList \<rparr>"

definition sampleNewFile :: ComparedFile where
  "sampleNewFile =
     \<lparr> isTemp = NO_TEMP, isNew = True, originalViewId = 0, originalPos = 5, compareViewId = 1,
       buffId = 8, sciDoc = 80, deletedSections = newDeletedSectionsList \<rparr>"

definition samplePair :: ComparedPair where
  "samplePair =
     \<lparr> file0 = sampleOldFile, file1 = sampleNewFile, relativePos = 3, isFullCompare = True,
       spacesIgnored = False, caseIgnored = False, movesDetected = False, alignmentInfo = [] \<rparr>"

definition userDeletion :: SCNotification where
  "userDeletion =
     \<lparr> modificationType = SC_MOD_BEFOREDELETE OR SC_PERFORMED_USER, position = 20, textLength = 20,
       notifiedLinesAdded = 0 \<rparr>"

text \<open>
  A pending update, and the notifications of a user inserting two lines at byte 30 and
  removing one line at byte 70.
\<close>

definition samplePending :: DelayedUpdate where
  "samplePending =
     \<lparr> timer = Some 10, timerCalls = [Armed 10], changePos = 50, linesAdded = 1,
       linesDeleted = 0, fullCompare = False \<rparr>"

definition userInsertion :: SCNotification where
  "userInsertion =
     \<lparr> modificationType = SC_MOD_INSERTTEXT OR SC_PERFORMED_USER, position = 30, textLength = 12,
       notifiedLinesAdded = 2 \<rparr>"

definition userRemoval :: SCNotification where
  "userRemoval =
     \<lparr> modificationType = SC_MOD_DELETETEXT OR SC_PERFORMED_USER, position = 70, textLength = 10,
       notifiedLinesAdded = - 1 \<rparr>"

text \<open>
  A toy editor for the alignment engine: its state is the number of blank lines each view
  shows above its text, every view has 100 lines and a screen of 10 lines starting at the
  top, nothing is folded and no line carries an annotation. Adding a blank section of
  \<open>n\<close> lines to a view moves its text down by \<open>n\<close>. In \<open>shiftedSub\<close> the sub view shows
  one blank line and the main view none.
\<close>

definition toyEditor :: "(int \<Rightarrow> int) Scintilla" where
  "toyEditor =
     \<lparr> SCI_GETFIRSTVISIBLELINE = (\<lambda>s view. 0),
       SCI_LINESONSCREEN = (\<lambda>s view. 10),
       SCI_DOCLINEFROMVISIBLE = (\<lambda>s view l. l),
       SCI_VISIBLEFROMDOCLINE = (\<lambda>s view l. l + s view),
       SCI_GETLINECOUNT = (\<lambda>s view. 100),
       SCI_ANNOTATIONGETLINES = (\<lambda>s view l. 0),
       SCI_FOLDALL_EXPAND = (\<lambda>s view. s),
       SCI_ANNOTATIONSETTEXT_NULL = (\<lambda>s view l. s),
       addBlankSection = (\<lambda>s view l n. s(view := s view + n)) \<rparr>"

definition shiftedSub :: "int \<Rightarrow> int" where
  "shiftedSub = (\<lambda>view. if view = 1 then 1 else 0)"

definition sameLines :: "int \<Rightarrow> AlignmentPair" where
  "sameLines l = \<lparr> main = \<lparr> line = l, diffMask = 0 \<rparr>, sub = \<lparr> line = l, diffMask = 0 \<rparr> \<rparr>"

definition alignedAt :: "int \<Rightarrow> int \<Rightarrow> AlignmentPair" where
  "alignedAt m s = \<lparr> main = \<lparr> line = m, diffMask = 0 \<rparr>, sub = \<lparr> line = s, diffMask = 0 \<rparr> \<rparr>"

text \<open>
  The tab bars after the new file of the sample pair (buffer 8, home at tab 5 of the main
  view) went to the sub view and an unrelated buffer at tab 1 was closed: the old file
  (buffer 7, home at tab 2) now sits at tab 1.
\<close>

definition tabsAfterClose :: Npp where
  "tabsAfterClose =
     \<lparr> tabs = (\<lambda>view. if view = 0 then [10, 7, 12, 13, 14] else if view = 1 then [8] else []),
       activeBuff = 7 \<rparr>"

text \<open>
  The tab bars when instead the old file of the sample pair went to the sub view and
  enough buffers were closed for the new file, the anchor with home at tab 5, to sit at
  tab 1.
\<close>

definition tabsOldMoved :: Npp where
  "tabsOldMoved =
     \<lparr> tabs = (\<lambda>view. if view = 0 then [10, 8] else if view = 1 then [7] else []),
       activeBuff = 8 \<rparr>"





section \<open>Properties of the marker history stack\<close>

lemma performed_distinct:
  "SC_PERFORMED_USER \<noteq> SC_PERFORMED_UNDO" "SC_PERFORMED_REDO \<noteq> SC_PERFORMED_UNDO"
  "SC_PERFORMED_UNDO \<noteq> SC_PERFORMED_REDO"
  by (simp_all add: SC_PERFORMED_USER_def SC_PERFORMED_UNDO_def SC_PERFORMED_REDO_def)

lemma markerPrevious_le: "0 \<le> markerPrevious m l k \<Longrightarrow> markerPrevious m l k \<le> l"
proof (induction m l k rule: markerPrevious.induct)
  case (1 m lineStart msk)
  then show ?case
    by (cases "lineStart < 0"; cases "m lineStart AND msk = 0")
       (simp_all add: markerPrevious.simps [of m lineStart])
qed

lemma markerPrevious_found:
  "0 \<le> markerPrevious m l k \<Longrightarrow> m (markerPrevious m l k) AND k \<noteq> 0"
proof (induction m l k rule: markerPrevious.induct)
  case (1 m lineStart msk)
  show ?case
  proof (cases "lineStart < 0")
    case True
    with "1.prems" show ?thesis by (simp add: markerPrevious.simps [of m lineStart])
  next
    case nneg: False
    show ?thesis
    proof (cases "m lineStart AND msk \<noteq> 0")
      case True
      with nneg show ?thesis by (simp add: markerPrevious.simps [of m lineStart])
    next
      case False
      with nneg have eq: "markerPrevious m lineStart msk = markerPrevious m (lineStart - 1) msk"
        by (simp add: markerPrevious.simps [of m lineStart])
      with "1.IH" [OF nneg False] "1.prems" show ?thesis by simp
    qed
  qed
qed

lemma markerPrevious_skipped:
  "markerPrevious m l k < j \<Longrightarrow> j \<le> l \<Longrightarrow> 0 \<le> j \<Longrightarrow> m j AND k = 0"
proof (induction m l k rule: markerPrevious.induct)
  case (1 m lineStart msk)
  from "1.prems" have nneg: "\<not> lineStart < 0" by simp
  show ?case
  proof (cases "m lineStart AND msk \<noteq> 0")
    case True
    with nneg have "markerPrevious m lineStart msk = lineStart"
      by (simp add: markerPrevious.simps [of m lineStart])
    with "1.prems" show ?thesis by simp
  next
    case False
    with nneg have eq: "markerPrevious m lineStart msk = markerPrevious m (lineStart - 1) msk"
      by (simp add: markerPrevious.simps [of m lineStart])
    show ?thesis
    proof (cases "j = lineStart")
      case True
      with False show ?thesis by simp
    next
      case ne: False
      with "1.prems" have "j \<le> lineStart - 1" by simp
      with "1.IH" [OF nneg False] eq "1.prems" show ?thesis by simp
    qed
  qed
qed

lemma map_upt_nth: "i < n \<Longrightarrow> map F [0..<n] ! i = F i"
  by simp

lemma pushLoop_returns:
  assumes "0 \<le> s"
  shows "pushLoop mk s e frm (v, ms) =
    Some (v\<lparr>viewMarkers := (\<lambda>l. if s \<le> l \<and> l \<le> frm \<and> l \<noteq> e \<and> viewMarkers v l AND MARKER_MASK_LINE mk \<noteq> 0
                                  then viewMarkers v l AND NOT (MARKER_MASK_ALL mk) else viewMarkers v l)\<rparr>,
          map (\<lambda>i. if s + int i \<le> frm \<and> viewMarkers v (s + int i) AND MARKER_MASK_LINE mk \<noteq> 0
                    then viewMarkers v (s + int i) AND MARKER_MASK_ALL mk else ms ! i) [0..<length ms])"
proof (induction "nat (frm - s + 1)" arbitrary: frm v ms rule: less_induct)
  case less
  define ln where "ln = markerPrevious (viewMarkers v) frm (MARKER_MASK_LINE mk)"
  show ?case
  proof (cases "s \<le> ln")
    case False
    have unmarked: "viewMarkers v l AND MARKER_MASK_LINE mk = 0" if "s \<le> l" "l \<le> frm" for l
      using markerPrevious_skipped [of "viewMarkers v" frm "MARKER_MASK_LINE mk" l] that False assms
      by (simp add: ln_def)
    have "pushLoop mk s e frm (v, ms) = Some (v, ms)"
      using False by (subst pushLoop.simps) (simp add: ln_def Let_def)
    moreover have "(\<lambda>l. if s \<le> l \<and> l \<le> frm \<and> l \<noteq> e \<and> viewMarkers v l AND MARKER_MASK_LINE mk \<noteq> 0
                                  then viewMarkers v l AND NOT (MARKER_MASK_ALL mk) else viewMarkers v l) = viewMarkers v"
      by (rule ext) (use unmarked in auto)
    moreover have "map (\<lambda>i. if s + int i \<le> frm \<and> viewMarkers v (s + int i) AND MARKER_MASK_LINE mk \<noteq> 0
                    then viewMarkers v (s + int i) AND MARKER_MASK_ALL mk else ms ! i) [0..<length ms] = ms"
      by (rule nth_equalityI) (use unmarked in auto)
    ultimately show ?thesis by simp
  next
    case True
    with assms have nneg: "0 \<le> ln" by simp
    then have le: "ln \<le> frm" and marked: "viewMarkers v ln AND MARKER_MASK_LINE mk \<noteq> 0"
      unfolding ln_def by (rule markerPrevious_le, rule markerPrevious_found)
    have unmarked: "viewMarkers v l AND MARKER_MASK_LINE mk = 0" if "ln < l" "l \<le> frm" for l
      using markerPrevious_skipped [of "viewMarkers v" frm "MARKER_MASK_LINE mk" l] that nneg
      by (simp add: ln_def)
    define v' where "v' = (if ln \<noteq> e then clearMarks mk v ln else v)"
    define ms' where "ms' = ms[nat (ln - s) := viewMarkers v ln AND MARKER_MASK_ALL mk]"
    have step: "pushLoop mk s e frm (v, ms) = pushLoop mk s e (ln - 1) (v', ms')"
      using True by (subst pushLoop.simps) (simp add: ln_def Let_def v'_def ms'_def)
    have "nat (ln - 1 - s + 1) < nat (frm - s + 1)" using True le by simp
    note IH = less [OF this, of v' ms']
    have v'_other: "viewMarkers v' l = viewMarkers v l" if "l \<noteq> ln" for l
      using that by (simp add: v'_def clearMarks_def)
    have v'_ln: "viewMarkers v' ln = (if ln \<noteq> e then viewMarkers v ln AND NOT (MARKER_MASK_ALL mk) else viewMarkers v ln)"
      by (simp add: v'_def clearMarks_def)
    have fields: "v'\<lparr>viewMarkers := f\<rparr> = v\<lparr>viewMarkers := f\<rparr>" for f
      by (simp add: v'_def clearMarks_def)
    have views: "(\<lambda>l. if s \<le> l \<and> l \<le> ln - 1 \<and> l \<noteq> e \<and> viewMarkers v' l AND MARKER_MASK_LINE mk \<noteq> 0
                    then viewMarkers v' l AND NOT (MARKER_MASK_ALL mk) else viewMarkers v' l)
               = (\<lambda>l. if s \<le> l \<and> l \<le> frm \<and> l \<noteq> e \<and> viewMarkers v l AND MARKER_MASK_LINE mk \<noteq> 0
                    then viewMarkers v l AND NOT (MARKER_MASK_ALL mk) else viewMarkers v l)"
    proof
      fix l
      consider "l < ln" | "l = ln" | "ln < l" "l \<le> frm" | "frm < l" by linarith
      then show "(if s \<le> l \<and> l \<le> ln - 1 \<and> l \<noteq> e \<and> viewMarkers v' l AND MARKER_MASK_LINE mk \<noteq> 0
                    then viewMarkers v' l AND NOT (MARKER_MASK_ALL mk) else viewMarkers v' l)
               = (if s \<le> l \<and> l \<le> frm \<and> l \<noteq> e \<and> viewMarkers v l AND MARKER_MASK_LINE mk \<noteq> 0
                    then viewMarkers v l AND NOT (MARKER_MASK_ALL mk) else viewMarkers v l)"
      proof cases
        case 1
        then show ?thesis using le by (simp add: v'_other)
      next
        case 2
        then show ?thesis using le True marked by (simp add: v'_ln)
      next
        case 3
        then show ?thesis using unmarked [of l] by (simp add: v'_other)
      next
        case 4
        then show ?thesis using le by (simp add: v'_other)
      qed
    qed
    have len: "length ms' = length ms" by (simp add: ms'_def)
    have lists: "map (\<lambda>i. if s + int i \<le> ln - 1 \<and> viewMarkers v' (s + int i) AND MARKER_MASK_LINE mk \<noteq> 0
                    then viewMarkers v' (s + int i) AND MARKER_MASK_ALL mk else ms' ! i) [0..<length ms']
               = map (\<lambda>i. if s + int i \<le> frm \<and> viewMarkers v (s + int i) AND MARKER_MASK_LINE mk \<noteq> 0
                    then viewMarkers v (s + int i) AND MARKER_MASK_ALL mk else ms ! i) [0..<length ms]"
    proof (rule nth_equalityI)
      show "length (map (\<lambda>i. if s + int i \<le> ln - 1 \<and> viewMarkers v' (s + int i) AND MARKER_MASK_LINE mk \<noteq> 0
                    then viewMarkers v' (s + int i) AND MARKER_MASK_ALL mk else ms' ! i) [0..<length ms'])
          = length (map (\<lambda>i. if s + int i \<le> frm \<and> viewMarkers v (s + int i) AND MARKER_MASK_LINE mk \<noteq> 0
                    then viewMarkers v (s + int i) AND MARKER_MASK_ALL mk else ms ! i) [0..<length ms])"
        by (simp add: len)
    next
      fix i
      assume "i < length (map (\<lambda>i. if s + int i \<le> ln - 1 \<and> viewMarkers v' (s + int i) AND MARKER_MASK_LINE mk \<noteq> 0
                    then viewMarkers v' (s + int i) AND MARKER_MASK_ALL mk else ms' ! i) [0..<length ms'])"
      then have i: "i < length ms" by (simp add: len)
      consider "s + int i < ln" | "s + int i = ln" | "ln < s + int i" "s + int i \<le> frm" | "frm < s + int i"
        by linarith
      then have "(if s + int i \<le> ln - 1 \<and> viewMarkers v' (s + int i) AND MARKER_MASK_LINE mk \<noteq> 0
                    then viewMarkers v' (s + int i) AND MARKER_MASK_ALL mk else ms' ! i)
               = (if s + int i \<le> frm \<and> viewMarkers v (s + int i) AND MARKER_MASK_LINE mk \<noteq> 0
                    then viewMarkers v (s + int i) AND MARKER_MASK_ALL mk else ms ! i)"
      proof cases
        case 1
        then have "nat (ln - s) \<noteq> i" using True by linarith
        with 1 le show ?thesis by (simp add: v'_other ms'_def)
      next
        case 2
        then have "nat (ln - s) = i" using True by linarith
        with 2 le marked i show ?thesis by (simp add: ms'_def)
      next
        case 3
        then have "nat (ln - s) \<noteq> i" using True by linarith
        with 3 unmarked [of "s + int i"] show ?thesis by (simp add: ms'_def)
      next
        case 4
        then have "nat (ln - s) \<noteq> i" using le True by linarith
        with 4 le show ?thesis by (simp add: ms'_def)
      qed
      with i show "map (\<lambda>i. if s + int i \<le> ln - 1 \<and> viewMarkers v' (s + int i) AND MARKER_MASK_LINE mk \<noteq> 0
                    then viewMarkers v' (s + int i) AND MARKER_MASK_ALL mk else ms' ! i) [0..<length ms'] ! i
          = map (\<lambda>i. if s + int i \<le> frm \<and> viewMarkers v (s + int i) AND MARKER_MASK_LINE mk \<noteq> 0
                    then viewMarkers v (s + int i) AND MARKER_MASK_ALL mk else ms ! i) [0..<length ms] ! i"
        by (simp only: map_upt_nth len)
    qed
    show ?thesis
      unfolding step IH views lists fields ..
  qed
qed

lemma popLoop_markers:
  "viewMarkers (popLoop mk ln xs v) l =
     (if ln \<le> l \<and> l < ln + int (length xs)
      then (viewMarkers v l AND NOT (MARKER_MASK_ALL mk)) OR xs ! nat (l - ln)
      else viewMarkers v l)"
proof (induction xs arbitrary: ln v)
  case Nil
  then show ?case by auto
next
  case (Cons x xs)
  define v1 where
    "v1 = (if x \<noteq> 0 then markerAddSet (clearMarks mk v ln) ln x else clearMarks mk v ln)"
  have v1: "viewMarkers v1 = (viewMarkers v)(ln := (viewMarkers v ln AND NOT (MARKER_MASK_ALL mk)) OR x)"
    by (simp add: v1_def clearMarks_def markerAddSet_def)
  have "viewMarkers (popLoop mk ln (x # xs) v) l = viewMarkers (popLoop mk (ln + 1) xs v1) l"
    by (simp add: v1_def)
  also have "\<dots> = (if ln + 1 \<le> l \<and> l < ln + 1 + int (length xs)
      then (viewMarkers v1 l AND NOT (MARKER_MASK_ALL mk)) OR xs ! nat (l - (ln + 1))
      else viewMarkers v1 l)"
    by (rule Cons.IH)
  also have "\<dots> = (if ln \<le> l \<and> l < ln + int (length (x # xs))
      then (viewMarkers v l AND NOT (MARKER_MASK_ALL mk)) OR (x # xs) ! nat (l - ln)
      else viewMarkers v l)"
  proof (cases "l = ln")
    case True
    then show ?thesis by (simp add: v1)
  next
    case False
    then have "nat (l - ln) = Suc (nat (l - (ln + 1)))" if "ln \<le> l"
      using that by simp
    with False show ?thesis by (auto simp add: v1)
  qed
  finally show ?case .
qed

lemma popLoop_fields:
  "changedIndicator (popLoop mk ln xs v) = changedIndicator v"
  "positionFromLine (popLoop mk ln xs v) = positionFromLine v"
  "lineFromPosition (popLoop mk ln xs v) = lineFromPosition v"
  by (induction xs arbitrary: ln v; simp add: clearMarks_def markerAddSet_def)+

lemma push_recorded:
  assumes "0 \<le> s" "s < e" "skipPush dsl = 0"
    and "\<not> (sections dsl \<noteq> [] \<and> restoreAction (last (sections dsl)) = a \<and> lineReplace (last (sections dsl)))"
  shows "push mk tick a s e (dsl, v) =
    Some (dsl\<lparr>sections := sections dsl @
                [\<lparr> startLine = s, lineReplace = False,
                   restoreAction = (if a = SC_PERFORMED_UNDO then SC_PERFORMED_REDO else SC_PERFORMED_UNDO),
                   markers = map (\<lambda>i. if viewMarkers v (s + int i) AND MARKER_MASK_LINE mk \<noteq> 0
                                      then viewMarkers v (s + int i) AND MARKER_MASK_ALL mk else 0)
                                 [0..<nat (e - s + 1)] \<rparr>],
              lastPushTimeMark := tick\<rparr>,
          v\<lparr>viewMarkers := (\<lambda>l. if s \<le> l \<and> l < e \<and> viewMarkers v l AND MARKER_MASK_LINE mk \<noteq> 0
                                  then viewMarkers v l AND NOT (MARKER_MASK_ALL mk) else viewMarkers v l),
            changedIndicator := (\<lambda>p. if positionFromLine v s \<le> p \<and> p < positionFromLine v e
                                       then False else changedIndicator v p)\<rparr>)"
proof -
  define v1 where "v1 = clearChangedIndicator v (positionFromLine v s) (positionFromLine v e - positionFromLine v s)"
  have m1: "viewMarkers v1 = viewMarkers v" by (simp add: v1_def clearChangedIndicator_def)
  have loop: "pushLoop mk s e e (v1, replicate (nat (e - s + 1)) 0) =
    Some (v1\<lparr>viewMarkers := (\<lambda>l. if s \<le> l \<and> l < e \<and> viewMarkers v l AND MARKER_MASK_LINE mk \<noteq> 0
                                  then viewMarkers v l AND NOT (MARKER_MASK_ALL mk) else viewMarkers v l)\<rparr>,
          map (\<lambda>i. if viewMarkers v (s + int i) AND MARKER_MASK_LINE mk \<noteq> 0
                    then viewMarkers v (s + int i) AND MARKER_MASK_ALL mk else 0) [0..<nat (e - s + 1)])"
  proof -
    have a: "(\<lambda>l. if s \<le> l \<and> l \<le> e \<and> l \<noteq> e \<and> viewMarkers v1 l AND MARKER_MASK_LINE mk \<noteq> 0
                then viewMarkers v1 l AND NOT (MARKER_MASK_ALL mk) else viewMarkers v1 l)
           = (\<lambda>l. if s \<le> l \<and> l < e \<and> viewMarkers v l AND MARKER_MASK_LINE mk \<noteq> 0
                then viewMarkers v l AND NOT (MARKER_MASK_ALL mk) else viewMarkers v l)"
      by (rule ext) (auto simp add: m1)
    have b: "map (\<lambda>i. if s + int i \<le> e \<and> viewMarkers v1 (s + int i) AND MARKER_MASK_LINE mk \<noteq> 0
                    then viewMarkers v1 (s + int i) AND MARKER_MASK_ALL mk
                    else replicate (nat (e - s + 1)) 0 ! i) [0..<length (replicate (nat (e - s + 1)) (0::mask))]
           = map (\<lambda>i. if viewMarkers v (s + int i) AND MARKER_MASK_LINE mk \<noteq> 0
                    then viewMarkers v (s + int i) AND MARKER_MASK_ALL mk else 0) [0..<nat (e - s + 1)]"
      by (rule nth_equalityI) (auto simp add: m1)
    show ?thesis
      unfolding pushLoop_returns [OF assms(1)] a b ..
  qed
  have nd: "markers (newDeletedSection a s (e - s + 1)) = replicate (nat (e - s + 1)) 0"
    by (simp add: newDeletedSection_def)
  have "push mk tick a s e (dsl, v) =
     (case pushLoop mk s e e (v1, replicate (nat (e - s + 1)) 0) of
        None \<Rightarrow> None
      | Some vm \<Rightarrow>
          Some (dsl\<lparr>sections := sections dsl @ [(newDeletedSection a s (e - s + 1))\<lparr>markers := snd vm\<rparr>],
                    lastPushTimeMark := tick\<rparr>,
                fst vm))"
    using assms unfolding push_def Let_def v1_def nd by (auto cong: option.case_cong)
  then have "push mk tick a s e (dsl, v) =
    Some (dsl\<lparr>sections := sections dsl @
                [(newDeletedSection a s (e - s + 1))
                   \<lparr>markers := map (\<lambda>i. if viewMarkers v (s + int i) AND MARKER_MASK_LINE mk \<noteq> 0
                                      then viewMarkers v (s + int i) AND MARKER_MASK_ALL mk else 0)
                                 [0..<nat (e - s + 1)]\<rparr>],
              lastPushTimeMark := tick\<rparr>,
          v1\<lparr>viewMarkers := (\<lambda>l. if s \<le> l \<and> l < e \<and> viewMarkers v l AND MARKER_MASK_LINE mk \<noteq> 0
                                  then viewMarkers v l AND NOT (MARKER_MASK_ALL mk) else viewMarkers v l)\<rparr>)"
    by (simp add: loop)
  then show ?thesis
    by (simp add: newDeletedSection_def v1_def clearChangedIndicator_def)
qed

lemma tick_window_unat:
  fixes tick mark :: DWORD
  assumes "unat mark + 40 < 2 ^ 32"
  shows "tick < mark + 40 \<longleftrightarrow> unat tick < unat mark + 40"
proof -
  have "unat (mark + 40) = unat mark + 40"
    using assms by (simp add: unat_word_ariths)
  then show ?thesis by (simp add: word_less_nat_alt)
qed



lemma sample_push:
  "push sampleMasks 1000 SC_PERFORMED_USER 2 4 (newDeletedSectionsList, sampleView) =
     Some (\<lparr> skipPush = 0, lastPushTimeMark = 1000,
              sections = [\<lparr> startLine = 2, lineReplace = False, restoreAction = SC_PERFORMED_UNDO,
                            markers = [0x11, 0, 0x22] \<rparr>] \<rparr>,
           sampleView\<lparr>viewMarkers := (\<lambda>l. if l = 4 then 0x22 else 0),
                      changedIndicator := (\<lambda>p. \<not> (20 \<le> p \<and> p < 40))\<rparr>)"
proof -
  have up: "[0..<3] = [0, 1, 2]" by (simp add: upt_rec)
  have "push sampleMasks 1000 SC_PERFORMED_USER 2 4 (newDeletedSectionsList, sampleView) =
    Some (newDeletedSectionsList\<lparr>sections := sections newDeletedSectionsList @
                [\<lparr> startLine = 2, lineReplace = False,
                   restoreAction = (if SC_PERFORMED_USER = SC_PERFORMED_UNDO then SC_PERFORMED_REDO else SC_PERFORMED_UNDO),
                   markers = map (\<lambda>i. if viewMarkers sampleView (2 + int i) AND MARKER_MASK_LINE sampleMasks \<noteq> 0
                                      then viewMarkers sampleView (2 + int i) AND MARKER_MASK_ALL sampleMasks else 0)
                                 [0..<nat (4 - 2 + 1)] \<rparr>],
              lastPushTimeMark := 1000\<rparr>,
          sampleView\<lparr>viewMarkers := (\<lambda>l. if 2 \<le> l \<and> l < 4 \<and> viewMarkers sampleView l AND MARKER_MASK_LINE sampleMasks \<noteq> 0
                                  then viewMarkers sampleView l AND NOT (MARKER_MASK_ALL sampleMasks) else viewMarkers sampleView l),
            changedIndicator := (\<lambda>p. if positionFromLine sampleView 2 \<le> p \<and> p < positionFromLine sampleView 4
                                       then False else changedIndicator sampleView p)\<rparr>)"
    by (rule push_recorded) (simp_all add: newDeletedSectionsList_def)
  also have "\<dots> = Some (\<lparr> skipPush = 0, lastPushTimeMark = 1000,
              sections = [\<lparr> startLine = 2, lineReplace = False, restoreAction = SC_PERFORMED_UNDO,
                            markers = [0x11, 0, 0x22] \<rparr>] \<rparr>,
           sampleView\<lparr>viewMarkers := (\<lambda>l. if l = 4 then 0x22 else 0),
                      changedIndicator := (\<lambda>p. \<not> (20 \<le> p \<and> p < 40))\<rparr>)"
    by (auto simp add: newDeletedSectionsList_def sampleView_def sampleMasks_def up performed_distinct)
  finally show ?thesis .
qed

lemma getCompare_Some:
  "getCompare b cl = Some k \<Longrightarrow>
     k < length cl \<and> (buffId (file0 (cl ! k)) = b \<or> buffId (file1 (cl ! k)) = b)"
proof (induction cl arbitrary: k)
  case Nil
  then show ?case by simp
next
  case (Cons p ps)
  then show ?case by (auto split: if_splits)
qed

lemma getCompare_first:
  "getCompare b cl = Some k \<Longrightarrow> j < k \<Longrightarrow>
     buffId (file0 (cl ! j)) \<noteq> b \<and> buffId (file1 (cl ! j)) \<noteq> b"
proof (induction cl arbitrary: k j)
  case Nil
  then show ?case by simp
next
  case (Cons p ps)
  then show ?case by (cases j) (auto split: if_splits)
qed

lemma getFile_setFile:
  "getFileByBuffId (setFileByBuffId p b ((getFileByBuffId p b)\<lparr>deletedSections := d\<rparr>)) b
     = (getFileByBuffId p b)\<lparr>deletedSections := d\<rparr>"
  by (simp add: getFileByBuffId_def setFileByBuffId_def)

lemma pop_not_replayed:
  assumes "sections h \<noteq> []" "c \<noteq> restoreAction (last (sections h)) \<or> l \<noteq> startLine (last (sections h))"
  shows "snd (pop mk t c l (h, v)) = v \<and> length (sections (fst (pop mk t c l (h, v)))) = length (sections h)"
  using assms by (auto simp add: pop_def Let_def)

lemma upt3: "[0..<3] = [0, 1, 2]"
  by (simp add: upt_rec)

lemma push_fst:
  assumes "0 \<le> s" "s < e" "skipPush dsl = 0"
    and "\<not> (sections dsl \<noteq> [] \<and> restoreAction (last (sections dsl)) = a \<and> lineReplace (last (sections dsl)))"
  shows "fst (the (push mk tick a s e (dsl, v))) =
    dsl\<lparr>sections := sections dsl @
                [\<lparr> startLine = s, lineReplace = False,
                   restoreAction = (if a = SC_PERFORMED_UNDO then SC_PERFORMED_REDO else SC_PERFORMED_UNDO),
                   markers = map (\<lambda>i. if viewMarkers v (s + int i) AND MARKER_MASK_LINE mk \<noteq> 0
                                      then viewMarkers v (s + int i) AND MARKER_MASK_ALL mk else 0)
                                 [0..<nat (e - s + 1)] \<rparr>],
              lastPushTimeMark := tick\<rparr>"
  and "viewMarkers (snd (the (push mk tick a s e (dsl, v)))) =
        (\<lambda>l. if s \<le> l \<and> l < e \<and> viewMarkers v l AND MARKER_MASK_LINE mk \<noteq> 0
                                  then viewMarkers v l AND NOT (MARKER_MASK_ALL mk) else viewMarkers v l)"
  by (simp_all add: push_recorded [OF assms])

lemma sample_push_at:
  "fst (the (push sampleMasks t SC_PERFORMED_USER 2 4 (newDeletedSectionsList, sampleView))) =
     \<lparr> skipPush = 0, lastPushTimeMark = t,
       sections = [\<lparr> startLine = 2, lineReplace = False, restoreAction = SC_PERFORMED_UNDO,
                     markers = [0x11, 0, 0x22] \<rparr>] \<rparr>"
  by (subst push_fst)
     (simp_all add: newDeletedSectionsList_def sampleView_def sampleMasks_def upt3 performed_distinct)


lemma pop_fst: "fst (pop mk t c l st) = fst (pop mk t c l (fst st, v'))"
  by (simp add: pop_def Let_def)

lemma window_closed:
  fixes tick mark :: DWORD
  assumes "unat mark + 40 \<le> unat tick"
  shows "\<not> tick < mark + 40"
proof -
  have "unat tick < 2 ^ 32"
    using unsigned_less [of tick, where ?'a = nat] by simp
  with assms have "unat mark + 40 < 2 ^ 32" by simp
  from tick_window_unat [OF this, of tick] assms show ?thesis by simp
qed

subsection \<open>Unmatched operations\<close>

text \<open>
  Claim C4, as stated: a \<^verbatim>\<open>pop\<close> whose action differs from the restore action of the top
  record and that comes outside the window of about 40 ms after the push of that record
  adds one to \<open>skipPush\<close> and changes nothing else. It fails, because the list keeps one
  time mark, that of the last recorded push, and no time for each record: after a deletion
  recorded at tick 1000 and a second deletion recorded at tick 5000 and undone at tick
  5005, a \<^verbatim>\<open>pop\<close> with another action at tick 5010, four seconds after the push of the
  record that is on top, marks that record as a line replacement and leaves \<open>skipPush\<close> at
  zero. It fails too when the 32-bit tick counter wraps between the push and the \<^verbatim>\<open>pop\<close>:
  after a push at tick 4294966296, a \<^verbatim>\<open>pop\<close> with another action at tick 256, which is
  1256 ms later, does the same.
\<close>

theorem late_pop_marks_older_record:
  "fst afterFirstDeletion =
     \<lparr> skipPush = 0, lastPushTimeMark = 1000,
       sections = [\<lparr> startLine = 2, lineReplace = False, restoreAction = SC_PERFORMED_UNDO,
                     markers = [0x11, 0, 0x22] \<rparr>] \<rparr> \<and>
   fst afterSecondUndone =
     \<lparr> skipPush = 0, lastPushTimeMark = 5000,
       sections = [\<lparr> startLine = 2, lineReplace = False, restoreAction = SC_PERFORMED_UNDO,
                     markers = [0x11, 0, 0x22] \<rparr>] \<rparr> \<and>
   fst (pop sampleMasks 5010 SC_PERFORMED_USER 2 afterSecondUndone) =
     \<lparr> skipPush = 0, lastPushTimeMark = 5000,
       sections = [\<lparr> startLine = 2, lineReplace = True, restoreAction = SC_PERFORMED_UNDO,
                     markers = [0x11, 0, 0x22] \<rparr>] \<rparr> \<and>
   fst afterEarlierDeletion =
     \<lparr> skipPush = 0, lastPushTimeMark = 4294966296,
       sections = [\<lparr> startLine = 2, lineReplace = False, restoreAction = SC_PERFORMED_UNDO,
                     markers = [0x11, 0, 0x22] \<rparr>] \<rparr> \<and>
   fst (pop sampleMasks 256 SC_PERFORMED_USER 2 afterEarlierDeletion) =
     \<lparr> skipPush = 0, lastPushTimeMark = 4294966296,
       sections = [\<lparr> startLine = 2, lineReplace = True, restoreAction = SC_PERFORMED_UNDO,
                     markers = [0x11, 0, 0x22] \<rparr>] \<rparr>"
proof -
  let ?A = "\<lparr> startLine = 2, lineReplace = False, restoreAction = SC_PERFORMED_UNDO,
              markers = [0x11, 0, 0x22] \<rparr>"
  have d1: "fst afterFirstDeletion = \<lparr> skipPush = 0, lastPushTimeMark = 1000, sections = [?A] \<rparr>"
    by (simp add: afterFirstDeletion_def sample_push_at)
  have v1: "viewMarkers (snd afterFirstDeletion) l = (if l = 4 then 0x22 else 0)" for l
    unfolding afterFirstDeletion_def
    by (subst push_fst) (simp_all add: newDeletedSectionsList_def sampleView_def sampleMasks_def)
  have "fst (the (push sampleMasks 5000 SC_PERFORMED_USER 6 8 (fst afterFirstDeletion, snd afterFirstDeletion))) =
     \<lparr> skipPush = 0, lastPushTimeMark = 5000,
       sections = [?A, \<lparr> startLine = 6, lineReplace = False, restoreAction = SC_PERFORMED_UNDO,
                         markers = [0, 0, 0] \<rparr>] \<rparr>"
    by (subst push_fst) (simp_all add: d1 v1 upt3 performed_distinct)
  then have d2: "fst afterSecondDeletion =
     \<lparr> skipPush = 0, lastPushTimeMark = 5000,
       sections = [?A, \<lparr> startLine = 6, lineReplace = False, restoreAction = SC_PERFORMED_UNDO,
                         markers = [0, 0, 0] \<rparr>] \<rparr>"
    by (simp add: afterSecondDeletion_def)
  have d3: "fst afterSecondUndone = \<lparr> skipPush = 0, lastPushTimeMark = 5000, sections = [?A] \<rparr>"
    unfolding afterSecondUndone_def
    by (subst pop_fst [where v' = sampleView]) (simp add: d2 pop_def Let_def)
  have d4: "fst (pop sampleMasks 5010 SC_PERFORMED_USER 2 afterSecondUndone) =
     \<lparr> skipPush = 0, lastPushTimeMark = 5000, sections = [?A\<lparr>lineReplace := True\<rparr>] \<rparr>"
    by (subst pop_fst [where v' = sampleView]) (simp add: d3 pop_def Let_def performed_distinct [symmetric])
  have d5: "fst afterEarlierDeletion = \<lparr> skipPush = 0, lastPushTimeMark = 4294966296, sections = [?A] \<rparr>"
    by (simp add: afterEarlierDeletion_def sample_push_at)
  have d6: "fst (pop sampleMasks 256 SC_PERFORMED_USER 2 afterEarlierDeletion) =
     \<lparr> skipPush = 0, lastPushTimeMark = 4294966296, sections = [?A\<lparr>lineReplace := True\<rparr>] \<rparr>"
    by (subst pop_fst [where v' = sampleView]) (simp add: d5 pop_def Let_def performed_distinct [symmetric])
  from d1 d3 d4 d5 d6 show ?thesis by simp
qed

text \<open>
  Claim C4, amended. A \<^verbatim>\<open>pop\<close> on an empty stack adds one to \<open>skipPush\<close> and changes
  nothing else. A \<^verbatim>\<open>pop\<close> whose action differs from the restore action of the top record
  and whose tick count is at least 40 above \<open>lastPushTimeMark\<close>, the tick count of the last
  push recorded on this list (which need not be the push of the record on top), adds one
  to \<open>skipPush\<close> and changes nothing else. A \<^verbatim>\<open>push\<close> for a deletion over several lines
  (the only one the notification handler passes on) that finds \<open>skipPush\<close> positive takes
  one off it and changes nothing else: no record, no marker. A \<^verbatim>\<open>pop\<close> whose action is the
  restore action of the top record but whose line is not the record's start line changes
  nothing at all.
\<close>

theorem unmatched_operations_only_count:
  "(sections dsl = [] \<longrightarrow>
      pop mk tick a l (dsl, v) = (dsl\<lparr>skipPush := skipPush dsl + 1\<rparr>, v)) \<and>
   (sections dsl \<noteq> [] \<and> restoreAction (last (sections dsl)) \<noteq> a
      \<and> unat (lastPushTimeMark dsl) + 40 \<le> unat tick \<longrightarrow>
      pop mk tick a l (dsl, v) = (dsl\<lparr>skipPush := skipPush dsl + 1\<rparr>, v)) \<and>
   (s < e \<and> 0 < skipPush dsl \<longrightarrow>
      push mk tick a s e (dsl, v) = Some (dsl\<lparr>skipPush := skipPush dsl - 1\<rparr>, v)) \<and>
   (sections dsl \<noteq> [] \<and> restoreAction (last (sections dsl)) = a
      \<and> startLine (last (sections dsl)) \<noteq> l \<longrightarrow>
      pop mk tick a l (dsl, v) = (dsl, v))"
proof (intro conjI impI)
  assume "sections dsl = []"
  then show "pop mk tick a l (dsl, v) = (dsl\<lparr>skipPush := skipPush dsl + 1\<rparr>, v)"
    by (simp add: pop_def Let_def)
next
  assume h: "sections dsl \<noteq> [] \<and> restoreAction (last (sections dsl)) \<noteq> a
      \<and> unat (lastPushTimeMark dsl) + 40 \<le> unat tick"
  then have "\<not> tick < lastPushTimeMark dsl + 40"
    by (intro window_closed) simp
  with h show "pop mk tick a l (dsl, v) = (dsl\<lparr>skipPush := skipPush dsl + 1\<rparr>, v)"
    by (simp add: pop_def Let_def)
next
  assume "s < e \<and> 0 < skipPush dsl"
  then show "push mk tick a s e (dsl, v) = Some (dsl\<lparr>skipPush := skipPush dsl - 1\<rparr>, v)"
    by (simp add: push_def Let_def)
next
  assume "sections dsl \<noteq> [] \<and> restoreAction (last (sections dsl)) = a
      \<and> startLine (last (sections dsl)) \<noteq> l"
  then show "pop mk tick a l (dsl, v) = (dsl, v)"
    by (simp add: pop_def Let_def)
qed

theorem unmatched_operations_only_count_witness:
  "pop sampleMasks 5000 SC_PERFORMED_USER 2 (newDeletedSectionsList, sampleView)
     = (newDeletedSectionsList\<lparr>skipPush := 1\<rparr>, sampleView) \<and>
   pop sampleMasks 5000 SC_PERFORMED_USER 2 (sampleHistory, sampleView)
     = (sampleHistory\<lparr>skipPush := 1\<rparr>, sampleView) \<and>
   push sampleMasks 5000 SC_PERFORMED_USER 2 4 (sampleHistory\<lparr>skipPush := 1\<rparr>, sampleView)
     = Some (sampleHistory, sampleView) \<and>
   pop sampleMasks 5000 SC_PERFORMED_UNDO 7 (sampleHistory, sampleView)
     = (sampleHistory, sampleView)"
proof -
  have h1: "sections newDeletedSectionsList = []"
    by (simp add: newDeletedSectionsList_def)
  have h2: "sections sampleHistory \<noteq> [] \<and> restoreAction (last (sections sampleHistory)) \<noteq> SC_PERFORMED_USER
      \<and> unat (lastPushTimeMark sampleHistory) + 40 \<le> unat (5000 :: DWORD)"
    by (simp add: sampleHistory_def SC_PERFORMED_USER_def SC_PERFORMED_UNDO_def)
  have h3: "(2::int) < 4 \<and> 0 < skipPush (sampleHistory\<lparr>skipPush := 1\<rparr>)"
    by simp
  have h4: "sections sampleHistory \<noteq> [] \<and> restoreAction (last (sections sampleHistory)) = SC_PERFORMED_UNDO
      \<and> startLine (last (sections sampleHistory)) \<noteq> 7"
    by (simp add: sampleHistory_def)
  have skip0: "skipPush newDeletedSectionsList = 0" "skipPush sampleHistory = 0"
    by (simp_all add: newDeletedSectionsList_def sampleHistory_def)
  from unmatched_operations_only_count
         [of newDeletedSectionsList sampleMasks 5000 SC_PERFORMED_USER 2 sampleView] h1
  have c1: "pop sampleMasks 5000 SC_PERFORMED_USER 2 (newDeletedSectionsList, sampleView)
     = (newDeletedSectionsList\<lparr>skipPush := 1\<rparr>, sampleView)"
    by (simp add: skip0)
  from unmatched_operations_only_count
         [of sampleHistory sampleMasks 5000 SC_PERFORMED_USER 2 sampleView] h2
  have c2: "pop sampleMasks 5000 SC_PERFORMED_USER 2 (sampleHistory, sampleView)
     = (sampleHistory\<lparr>skipPush := 1\<rparr>, sampleView)"
    by (simp add: skip0)
  from unmatched_operations_only_count
         [of "sampleHistory\<lparr>skipPush := 1\<rparr>" sampleMasks 5000 SC_PERFORMED_USER 2 sampleView 2 4] h3
  have c3: "push sampleMasks 5000 SC_PERFORMED_USER 2 4 (sampleHistory\<lparr>skipPush := 1\<rparr>, sampleView)
     = Some (sampleHistory, sampleView)"
    by (simp add: sampleHistory_def)
  from unmatched_operations_only_count
         [of sampleHistory sampleMasks 5000 SC_PERFORMED_UNDO 7 sampleView] h4
  have c4: "pop sampleMasks 5000 SC_PERFORMED_UNDO 7 (sampleHistory, sampleView)
     = (sampleHistory, sampleView)"
    by simp
  from c1 c2 c3 c4 show ?thesis by simp
qed

subsection \<open>Line replacement\<close>






subsection \<open>What a push records and clears\<close>

text \<open>
  Claim C2, as stated: a recorded \<^verbatim>\<open>push\<close> clears the markers of every line of
  \<open>[startLine, endLine]\<close>. It fails on \<open>endLine\<close>, which the loop skips when it clears
  (\<^verbatim>\<open>if (line != endLine)\<close>, line 169): after the push of lines 2 to 4 of the sample view
  on an empty history, line 4 still carries the markers \<open>0x22\<close> it had.
\<close>

theorem push_leaves_endLine_marked:
  "push sampleMasks 1000 SC_PERFORMED_USER 2 4 (newDeletedSectionsList, sampleView) \<noteq> None \<and>
   viewMarkers sampleView 4 AND MARKER_MASK_ALL sampleMasks = 0x22 \<and>
   viewMarkers (snd (the (push sampleMasks 1000 SC_PERFORMED_USER 2 4 (newDeletedSectionsList, sampleView)))) 4
     AND MARKER_MASK_ALL sampleMasks = 0x22"
  by (simp add: sample_push) (simp add: sampleView_def sampleMasks_def)

text \<open>
  Claim C2, amended. For every call \<^verbatim>\<open>push(currAction, startLine, endLine)\<close> with
  \<open>0 \<le> startLine < endLine\<close>, \<open>skipPush\<close> zero and no line-replace record on top that
  suppresses it, the push returns and appends one record, of \<open>endLine - startLine + 1\<close>
  entries, that holds for each line of \<open>[startLine, endLine]\<close> carrying a line marker
  (a marker of \<^verbatim>\<open>MARKER_MASK_LINE\<close>) the marker bitset of the line (masked by
  \<^verbatim>\<open>MARKER_MASK_ALL\<close>), and zero for the other lines. It clears the diff markers of every
  such line before \<open>endLine\<close>; the markers of \<open>endLine\<close> and of all other lines stay. It
  clears the changed indicator over the bytes from the start of \<open>startLine\<close> up to the
  start of \<open>endLine\<close>.
\<close>

theorem push_captures_and_clears_before_endLine:
  assumes "0 \<le> s" "s < e" "skipPush dsl = 0"
    and "\<not> (sections dsl \<noteq> [] \<and> restoreAction (last (sections dsl)) = a \<and> lineReplace (last (sections dsl)))"
  shows "\<exists>d1 v1 r.
     push mk tick a s e (dsl, v) = Some (d1, v1) \<and>
     sections d1 = sections dsl @ [r] \<and>
     startLine r = s \<and>
     length (markers r) = nat (e - s + 1) \<and>
     (\<forall>l\<in>{s..e}. markers r ! nat (l - s) =
        (if viewMarkers v l AND MARKER_MASK_LINE mk \<noteq> 0 then viewMarkers v l AND MARKER_MASK_ALL mk else 0)) \<and>
     (\<forall>l. viewMarkers v1 l =
        (if s \<le> l \<and> l < e \<and> viewMarkers v l AND MARKER_MASK_LINE mk \<noteq> 0
         then viewMarkers v l AND NOT (MARKER_MASK_ALL mk) else viewMarkers v l)) \<and>
     (\<forall>p. changedIndicator v1 p =
        (if positionFromLine v s \<le> p \<and> p < positionFromLine v e then False else changedIndicator v p))"
proof -
  define r where "r = \<lparr> startLine = s, lineReplace = False,
                   restoreAction = (if a = SC_PERFORMED_UNDO then SC_PERFORMED_REDO else SC_PERFORMED_UNDO),
                   markers = map (\<lambda>i. if viewMarkers v (s + int i) AND MARKER_MASK_LINE mk \<noteq> 0
                                      then viewMarkers v (s + int i) AND MARKER_MASK_ALL mk else 0)
                                 [0..<nat (e - s + 1)] \<rparr>"
  have cap: "markers r ! nat (l - s) =
        (if viewMarkers v l AND MARKER_MASK_LINE mk \<noteq> 0 then viewMarkers v l AND MARKER_MASK_ALL mk else 0)"
    if "l \<in> {s..e}" for l
  proof -
    from that have "nat (l - s) < nat (e - s + 1)" "s + int (nat (l - s)) = l" by auto
    then show ?thesis by (simp add: r_def)
  qed
  show ?thesis
    unfolding push_recorded [OF assms]
    by (intro exI [of _ r] exI conjI refl) (simp_all add: r_def [symmetric] cap, simp_all add: r_def)
qed

theorem push_captures_and_clears_before_endLine_witness:
  "\<exists>d1 v1 r.
     push sampleMasks 1000 SC_PERFORMED_USER 2 4 (newDeletedSectionsList, sampleView) = Some (d1, v1) \<and>
     sections d1 = [r] \<and>
     startLine r = 2 \<and>
     length (markers r) = 3 \<and>
     markers r ! 0 = 0x11 \<and> markers r ! 1 = 0 \<and> markers r ! 2 = 0x22 \<and>
     viewMarkers v1 2 = 0 \<and> viewMarkers v1 3 = 0 \<and> viewMarkers v1 4 = 0x22 \<and>
     \<not> changedIndicator v1 20 \<and> \<not> changedIndicator v1 39 \<and> changedIndicator v1 40"
proof -
  have h: "(0::int) \<le> 2" "(2::int) < 4" "skipPush newDeletedSectionsList = 0"
    "\<not> (sections newDeletedSectionsList \<noteq> [] \<and>
        restoreAction (last (sections newDeletedSectionsList)) = SC_PERFORMED_USER \<and>
        lineReplace (last (sections newDeletedSectionsList)))"
    by (simp_all add: newDeletedSectionsList_def)
  from push_captures_and_clears_before_endLine [OF h, of sampleMasks 1000 sampleView]
  obtain d1 v1 r where
    p: "push sampleMasks 1000 SC_PERFORMED_USER 2 4 (newDeletedSectionsList, sampleView) = Some (d1, v1)"
    and s: "sections d1 = sections newDeletedSectionsList @ [r]" "startLine r = 2"
      "length (markers r) = nat (4 - 2 + 1)"
    and cap: "\<forall>l\<in>{2..4}. markers r ! nat (l - 2) =
        (if viewMarkers sampleView l AND MARKER_MASK_LINE sampleMasks \<noteq> 0
         then viewMarkers sampleView l AND MARKER_MASK_ALL sampleMasks else 0)"
    and vm: "\<forall>l. viewMarkers v1 l =
        (if 2 \<le> l \<and> l < 4 \<and> viewMarkers sampleView l AND MARKER_MASK_LINE sampleMasks \<noteq> 0
         then viewMarkers sampleView l AND NOT (MARKER_MASK_ALL sampleMasks) else viewMarkers sampleView l)"
    and ci: "\<forall>p. changedIndicator v1 p =
        (if positionFromLine sampleView 2 \<le> p \<and> p < positionFromLine sampleView 4
         then False else changedIndicator sampleView p)"
    by blast
  from cap [rule_format, of 2] cap [rule_format, of 3] cap [rule_format, of 4]
  have "markers r ! nat (2 - 2) = 0x11" "markers r ! nat (3 - 2) = 0" "markers r ! nat (4 - 2) = 0x22"
    by (simp_all add: sampleView_def sampleMasks_def)
  then have m: "markers r ! 0 = 0x11" "markers r ! 1 = 0" "markers r ! 2 = 0x22"
    by simp_all
  have v: "viewMarkers v1 2 = 0" "viewMarkers v1 3 = 0" "viewMarkers v1 4 = 0x22"
    by (simp_all add: vm sampleView_def sampleMasks_def)
  have c: "\<not> changedIndicator v1 20" "\<not> changedIndicator v1 39" "changedIndicator v1 40"
    by (simp_all add: ci sampleView_def)
  from s have "sections d1 = [r]" "length (markers r) = 3"
    by (simp_all add: newDeletedSectionsList_def)
  with p s m v c show ?thesis by blast
qed

subsection \<open>Restoring the markers of a deletion\<close>

text \<open>
  Claim C1, as stated: for every marker state, a recorded \<^verbatim>\<open>push\<close> followed by the
  matching \<^verbatim>\<open>pop\<close> leaves on every line of \<open>[startLine, endLine]\<close> the marker bitset the
  line had before the push. It fails for a line that carries diff markers but no line
  marker: \<^verbatim>\<open>push\<close> looks for the lines with a marker of \<^verbatim>\<open>MARKER_MASK_LINE\<close> only (lines
  165-166) and neither saves nor clears the other lines, and \<^verbatim>\<open>pop\<close> clears every line
  of the range (line 213). With the masks \<open>0x0F\<close> and \<open>0xFF\<close> and the markers \<open>0x30\<close> on
  line 3, the push of lines 2 to 4 records \<open>[0x11, 0, 0x22]\<close> and leaves \<open>0x30\<close> on line 3;
  the matching \<^verbatim>\<open>pop\<close> removes the record and leaves line 3 without markers.
\<close>

theorem undo_clears_line_without_line_marker:
  "viewMarkers symbolOnlyView 3 = 0x30 \<and>
   push sampleMasks 1000 SC_PERFORMED_USER 2 4 (newDeletedSectionsList, symbolOnlyView) \<noteq> None \<and>
   sections (fst afterSymbolDeletion) =
     [\<lparr> startLine = 2, lineReplace = False, restoreAction = SC_PERFORMED_UNDO,
        markers = [0x11, 0, 0x22] \<rparr>] \<and>
   viewMarkers (snd afterSymbolDeletion) 3 = 0x30 \<and>
   sections (fst (pop sampleMasks 2000 SC_PERFORMED_UNDO 2 afterSymbolDeletion)) = [] \<and>
   viewMarkers (snd (pop sampleMasks 2000 SC_PERFORMED_UNDO 2 afterSymbolDeletion)) 3 = 0"
proof -
  have h: "(0::int) \<le> 2" "(2::int) < 4" "skipPush newDeletedSectionsList = 0"
    "\<not> (sections newDeletedSectionsList \<noteq> [] \<and>
        restoreAction (last (sections newDeletedSectionsList)) = SC_PERFORMED_USER \<and>
        lineReplace (last (sections newDeletedSectionsList)))"
    by (simp_all add: newDeletedSectionsList_def)
  have a: "viewMarkers symbolOnlyView 3 = 0x30"
    by (simp add: symbolOnlyView_def)
  have b: "push sampleMasks 1000 SC_PERFORMED_USER 2 4 (newDeletedSectionsList, symbolOnlyView) \<noteq> None"
    by (simp add: push_recorded [OF h])
  have d1: "fst afterSymbolDeletion =
     \<lparr> skipPush = 0, lastPushTimeMark = 1000,
       sections = [\<lparr> startLine = 2, lineReplace = False, restoreAction = SC_PERFORMED_UNDO,
                     markers = [0x11, 0, 0x22] \<rparr>] \<rparr>"
    unfolding afterSymbolDeletion_def
    by (subst push_fst [OF h])
       (simp add: newDeletedSectionsList_def symbolOnlyView_def sampleView_def sampleMasks_def upt3
          performed_distinct)
  have v1: "viewMarkers (snd afterSymbolDeletion) 3 = 0x30"
    unfolding afterSymbolDeletion_def
    by (subst push_fst [OF h]) (simp add: symbolOnlyView_def sampleMasks_def)
  have p: "pop sampleMasks 2000 SC_PERFORMED_UNDO 2 (fst afterSymbolDeletion, snd afterSymbolDeletion) =
     (\<lparr> skipPush = 0, lastPushTimeMark = 1000, sections = [] \<rparr>,
      popLoop sampleMasks 2 [0x11, 0, 0x22]
        (clearChangedIndicator (snd afterSymbolDeletion)
           (positionFromLine (snd afterSymbolDeletion) 2)
           (positionFromLine (snd afterSymbolDeletion) (2 + 3) - positionFromLine (snd afterSymbolDeletion) 2)))"
    by (simp add: d1 pop_def Let_def)
  have p': "pop sampleMasks 2000 SC_PERFORMED_UNDO 2 afterSymbolDeletion =
     (\<lparr> skipPush = 0, lastPushTimeMark = 1000, sections = [] \<rparr>,
      popLoop sampleMasks 2 [0x11, 0, 0x22]
        (clearChangedIndicator (snd afterSymbolDeletion)
           (positionFromLine (snd afterSymbolDeletion) 2)
           (positionFromLine (snd afterSymbolDeletion) (2 + 3) - positionFromLine (snd afterSymbolDeletion) 2)))"
    using p by (simp del: popLoop.simps)
  have e: "sections (fst (pop sampleMasks 2000 SC_PERFORMED_UNDO 2 afterSymbolDeletion)) = []"
    unfolding p' by simp
  have f: "viewMarkers (snd (pop sampleMasks 2000 SC_PERFORMED_UNDO 2 afterSymbolDeletion)) 3 = 0"
    unfolding p' snd_conv popLoop_markers
    by (simp add: clearChangedIndicator_def v1 sampleMasks_def)
  from a b d1 v1 e f show ?thesis by simp
qed

text \<open>
  Claim C1, amended. Take any marker state and a deletion
  \<^verbatim>\<open>push(action, startLine, endLine)\<close> that is recorded (\<open>0 \<le> startLine < endLine\<close>,
  \<open>skipPush\<close> zero, not suppressed). Then a following \<^verbatim>\<open>pop\<close> with the restore action of
  the record and its start line, whatever the view looks like by then, removes the record,
  so that the stack and \<open>skipPush\<close> are what they were before the push, and leaves on
  every line of \<open>[startLine, endLine]\<close> that before the push carried a line marker (a
  marker of \<^verbatim>\<open>MARKER_MASK_LINE\<close>) or no diff marker at all exactly the diff markers the
  line had before the push (next to the markers of other owners the line has by then);
  the lines outside the range keep their markers.
\<close>

theorem undo_restores_marker_bitsets:
  assumes "0 \<le> s" "s < e" "skipPush dsl = 0"
    and "\<not> (sections dsl \<noteq> [] \<and> restoreAction (last (sections dsl)) = a \<and> lineReplace (last (sections dsl)))"
  shows "\<exists>d1 v1 d2 v3.
     push mk t1 a s e (dsl, v) = Some (d1, v1) \<and>
     pop mk t2 (restoreAction (last (sections d1))) s (d1, v2) = (d2, v3) \<and>
     sections d2 = sections dsl \<and> skipPush d2 = skipPush dsl \<and>
     (\<forall>l\<in>{s..e}.
        (viewMarkers v l AND MARKER_MASK_ALL mk \<noteq> 0 \<longrightarrow> viewMarkers v l AND MARKER_MASK_LINE mk \<noteq> 0) \<longrightarrow>
        viewMarkers v3 l =
          (viewMarkers v2 l AND NOT (MARKER_MASK_ALL mk)) OR (viewMarkers v l AND MARKER_MASK_ALL mk)) \<and>
     (\<forall>l. l \<notin> {s..e} \<longrightarrow> viewMarkers v3 l = viewMarkers v2 l)"
proof -
  define r where "r = \<lparr> startLine = s, lineReplace = False,
                   restoreAction = (if a = SC_PERFORMED_UNDO then SC_PERFORMED_REDO else SC_PERFORMED_UNDO),
                   markers = map (\<lambda>i. if viewMarkers v (s + int i) AND MARKER_MASK_LINE mk \<noteq> 0
                                      then viewMarkers v (s + int i) AND MARKER_MASK_ALL mk else 0)
                                 [0..<nat (e - s + 1)] \<rparr>"
  define d1 where "d1 = dsl\<lparr>sections := sections dsl @ [r], lastPushTimeMark := t1\<rparr>"
  define w where "w = clearChangedIndicator v2 (positionFromLine v2 s)
                        (positionFromLine v2 (s + int (length (markers r))) - positionFromLine v2 s)"
  define v3 where "v3 = popLoop mk s (markers r) w"
  define d2 where "d2 = d1\<lparr>sections := sections dsl\<rparr>"
  from push_recorded [OF assms, of mk t1 v]
  obtain v1 where p1: "push mk t1 a s e (dsl, v) = Some (d1, v1)"
    by (simp add: d1_def r_def)
  have p2: "pop mk t2 (restoreAction (last (sections d1))) s (d1, v2) = (d2, v3)"
    by (simp add: pop_def Let_def d1_def d2_def v3_def w_def r_def)
  have len: "int (length (markers r)) = e - s + 1" using assms(2) by (simp add: r_def)
  have w: "viewMarkers w = viewMarkers v2" by (simp add: w_def clearChangedIndicator_def)
  have inside: "viewMarkers v3 l =
        (viewMarkers v2 l AND NOT (MARKER_MASK_ALL mk)) OR (viewMarkers v l AND MARKER_MASK_ALL mk)"
    if l: "l \<in> {s..e}"
      and marked: "viewMarkers v l AND MARKER_MASK_ALL mk \<noteq> 0 \<longrightarrow> viewMarkers v l AND MARKER_MASK_LINE mk \<noteq> 0"
    for l
  proof -
    from l have i: "nat (l - s) < nat (e - s + 1)" "s + int (nat (l - s)) = l" by auto
    have "markers r ! nat (l - s) = viewMarkers v l AND MARKER_MASK_ALL mk"
    proof (cases "viewMarkers v l AND MARKER_MASK_LINE mk \<noteq> 0")
      case True
      with i show ?thesis by (simp add: r_def)
    next
      case False
      with marked have "viewMarkers v l AND MARKER_MASK_ALL mk = 0" by blast
      with False i show ?thesis by (simp add: r_def)
    qed
    moreover from l len have "s \<le> l \<and> l < s + int (length (markers r))" by simp
    ultimately show ?thesis
      by (simp add: v3_def popLoop_markers w)
  qed
  have outside: "viewMarkers v3 l = viewMarkers v2 l" if "l \<notin> {s..e}" for l
  proof -
    from that len have "\<not> (s \<le> l \<and> l < s + int (length (markers r)))" by auto
    then show ?thesis by (auto simp add: v3_def popLoop_markers w)
  qed
  have "sections d2 = sections dsl" "skipPush d2 = skipPush dsl"
    by (simp_all add: d2_def d1_def)
  with p1 p2 inside outside show ?thesis by blast
qed

theorem undo_restores_marker_bitsets_witness:
  "\<exists>d1 v1 d2 v3.
     push sampleMasks 1000 SC_PERFORMED_USER 2 4 (newDeletedSectionsList, sampleView) = Some (d1, v1) \<and>
     pop sampleMasks 2000 (restoreAction (last (sections d1))) 2
         (d1, sampleView\<lparr>viewMarkers := (\<lambda>l. 0)\<rparr>) = (d2, v3) \<and>
     sections d2 = [] \<and> skipPush d2 = 0 \<and>
     viewMarkers v3 2 = 0x11 \<and> viewMarkers v3 3 = 0 \<and> viewMarkers v3 4 = 0x22 \<and>
     viewMarkers v3 1 = 0 \<and> viewMarkers v3 5 = 0"
proof -
  have h: "(0::int) \<le> 2" "(2::int) < 4" "skipPush newDeletedSectionsList = 0"
    "\<not> (sections newDeletedSectionsList \<noteq> [] \<and>
        restoreAction (last (sections newDeletedSectionsList)) = SC_PERFORMED_USER \<and>
        lineReplace (last (sections newDeletedSectionsList)))"
    by (simp_all add: newDeletedSectionsList_def)
  from undo_restores_marker_bitsets
         [OF h, of sampleMasks 1000 sampleView 2000 "sampleView\<lparr>viewMarkers := (\<lambda>l. 0)\<rparr>"]
  obtain d1 v1 d2 v3 where
    p: "push sampleMasks 1000 SC_PERFORMED_USER 2 4 (newDeletedSectionsList, sampleView) = Some (d1, v1)"
      "pop sampleMasks 2000 (restoreAction (last (sections d1))) 2
         (d1, sampleView\<lparr>viewMarkers := (\<lambda>l. 0)\<rparr>) = (d2, v3)"
    and d: "sections d2 = sections newDeletedSectionsList" "skipPush d2 = skipPush newDeletedSectionsList"
    and inside: "\<forall>l\<in>{2..4}.
        (viewMarkers sampleView l AND MARKER_MASK_ALL sampleMasks \<noteq> 0 \<longrightarrow>
         viewMarkers sampleView l AND MARKER_MASK_LINE sampleMasks \<noteq> 0) \<longrightarrow>
        viewMarkers v3 l =
        (viewMarkers (sampleView\<lparr>viewMarkers := (\<lambda>l. 0)\<rparr>) l AND NOT (MARKER_MASK_ALL sampleMasks))
          OR (viewMarkers sampleView l AND MARKER_MASK_ALL sampleMasks)"
    and outside: "\<forall>l. l \<notin> {2..4} \<longrightarrow>
        viewMarkers v3 l = viewMarkers (sampleView\<lparr>viewMarkers := (\<lambda>l. 0)\<rparr>) l"
    by blast
  from inside [rule_format, of 2] inside [rule_format, of 3] inside [rule_format, of 4]
  have i: "viewMarkers v3 2 = 0x11" "viewMarkers v3 3 = 0" "viewMarkers v3 4 = 0x22"
    by (simp_all add: sampleView_def sampleMasks_def)
  from outside [rule_format, of 1] outside [rule_format, of 5]
  have "viewMarkers v3 1 = 0" "viewMarkers v3 5 = 0"
    by simp_all
  moreover from d have "sections d2 = []" "skipPush d2 = 0"
    by (simp_all add: newDeletedSectionsList_def)
  ultimately show ?thesis using p i by blast
qed

subsection \<open>Restore action of a record\<close>

text \<open>
  Claim C10. A record made for a deletion whose action is anything but "performed by
  undo" (a user's deletion too, not only one by redo) gets the restore action "performed
  by undo"; the restore action is "performed by redo" exactly for a deletion by undo.
  So when \<^verbatim>\<open>onSciModified\<close> is told of a deletion over several lines of a compared buffer
  that no undo performed, and the push is recorded, the new top record has the restore
  action "performed by undo" and the start line of the deletion, and any \<^verbatim>\<open>pop\<close> with
  another action or another line leaves the view and the length of the stack as they are:
  only an insertion by undo at that line replays the saved markers.
\<close>

theorem deletions_are_restored_by_undo_unless_undone:
  assumes k: "getCompare b cl = Some k"
    and f: "f = getFileByBuffId (cl ! k) b"
    and a: "a = modificationType n AND (SC_PERFORMED_USER OR SC_PERFORMED_UNDO OR SC_PERFORMED_REDO)"
    and s: "s = lineFromPosition v (position n)"
    and e: "e = lineFromPosition v (position n + textLength n)"
    and del: "modificationType n AND SC_MOD_BEFOREDELETE \<noteq> 0"
    and not_undo: "a \<noteq> SC_PERFORMED_UNDO"
    and lines: "0 \<le> s" "s < e"
    and skip: "skipPush (deletedSections f) = 0"
    and top: "\<not> (sections (deletedSections f) \<noteq> [] \<and>
                 restoreAction (last (sections (deletedSections f))) = a \<and>
                 lineReplace (last (sections (deletedSections f))))"
  shows "(a' \<noteq> SC_PERFORMED_UNDO \<longrightarrow> restoreAction (newDeletedSection a' ln len) = SC_PERFORMED_UNDO) \<and>
    (restoreAction (newDeletedSection a' ln len) = SC_PERFORMED_REDO \<longleftrightarrow> a' = SC_PERFORMED_UNDO) \<and>
    (\<exists>cl' v' h.
       onSciModified mk t1 n b (cl, v) = Some (cl', v') \<and>
       h = deletedSections (getFileByBuffId (cl' ! k) b) \<and>
       length (sections h) = length (sections (deletedSections f)) + 1 \<and>
       restoreAction (last (sections h)) = SC_PERFORMED_UNDO \<and>
       startLine (last (sections h)) = s \<and>
       (\<forall>c l t2 v2. c \<noteq> SC_PERFORMED_UNDO \<or> l \<noteq> s \<longrightarrow>
          snd (pop mk t2 c l (h, v2)) = v2 \<and>
          length (sections (fst (pop mk t2 c l (h, v2)))) = length (sections h)))"
proof (intro conjI)
  show "a' \<noteq> SC_PERFORMED_UNDO \<longrightarrow> restoreAction (newDeletedSection a' ln len) = SC_PERFORMED_UNDO"
    by (simp add: newDeletedSection_def)
  show "restoreAction (newDeletedSection a' ln len) = SC_PERFORMED_REDO \<longleftrightarrow> a' = SC_PERFORMED_UNDO"
    by (simp add: newDeletedSection_def performed_distinct)
  from getCompare_Some [OF k] have klen: "k < length cl" by simp
  from push_recorded [OF lines skip top, of mk t1 v]
  obtain d1 v1 r where p: "push mk t1 a s e (deletedSections f, v) = Some (d1, v1)"
    and d1: "sections d1 = sections (deletedSections f) @ [r]"
    and r: "restoreAction r = SC_PERFORMED_UNDO" "startLine r = s"
    using not_undo by simp
  define cl' where "cl' = cl[k := setFileByBuffId (cl ! k) b (f\<lparr>deletedSections := d1\<rparr>)]"
  have run: "onSciModified mk t1 n b (cl, v) = Some (cl', v1)"
    using k del lines p
    by (simp add: onSciModified_def Let_def cl'_def f [symmetric] a [symmetric] s [symmetric] e [symmetric])
  have h: "deletedSections (getFileByBuffId (cl' ! k) b) = d1"
    using klen by (simp add: cl'_def f getFile_setFile)
  have facts: "length (sections d1) = length (sections (deletedSections f)) + 1"
    "restoreAction (last (sections d1)) = SC_PERFORMED_UNDO" "startLine (last (sections d1)) = s"
    "sections d1 \<noteq> []"
    using d1 r by simp_all
  have later: "snd (pop mk t2 c l (d1, v2)) = v2 \<and>
          length (sections (fst (pop mk t2 c l (d1, v2)))) = length (sections d1)"
    if "c \<noteq> SC_PERFORMED_UNDO \<or> l \<noteq> s" for c l t2 v2
    using that facts by (intro pop_not_replayed) auto
  from run h facts later
  show "\<exists>cl' v' h.
       onSciModified mk t1 n b (cl, v) = Some (cl', v') \<and>
       h = deletedSections (getFileByBuffId (cl' ! k) b) \<and>
       length (sections h) = length (sections (deletedSections f)) + 1 \<and>
       restoreAction (last (sections h)) = SC_PERFORMED_UNDO \<and>
       startLine (last (sections h)) = s \<and>
       (\<forall>c l t2 v2. c \<noteq> SC_PERFORMED_UNDO \<or> l \<noteq> s \<longrightarrow>
          snd (pop mk t2 c l (h, v2)) = v2 \<and>
          length (sections (fst (pop mk t2 c l (h, v2)))) = length (sections h))"
    by blast
qed

theorem deletions_are_restored_by_undo_unless_undone_witness:
  "restoreAction (newDeletedSection SC_PERFORMED_USER 2 3) = SC_PERFORMED_UNDO \<and>
   restoreAction (newDeletedSection SC_PERFORMED_UNDO 2 3) = SC_PERFORMED_REDO \<and>
   (\<exists>cl' v' h.
       onSciModified sampleMasks 1000 userDeletion 8 ([samplePair], sampleView) = Some (cl', v') \<and>
       h = deletedSections (getFileByBuffId (cl' ! 0) 8) \<and>
       length (sections h) = 1 \<and>
       restoreAction (last (sections h)) = SC_PERFORMED_UNDO \<and>
       startLine (last (sections h)) = 2 \<and>
       snd (pop sampleMasks 2000 SC_PERFORMED_REDO 2 (h, sampleView)) = sampleView \<and>
       length (sections (fst (pop sampleMasks 2000 SC_PERFORMED_REDO 2 (h, sampleView)))) = 1 \<and>
       snd (pop sampleMasks 2000 SC_PERFORMED_UNDO 3 (h, sampleView)) = sampleView)"
proof -
  have k: "getCompare 8 [samplePair] = Some 0"
    by (simp add: samplePair_def sampleOldFile_def sampleNewFile_def)
  have f: "sampleNewFile = getFileByBuffId ([samplePair] ! 0) 8"
    by (simp add: getFileByBuffId_def samplePair_def sampleOldFile_def sampleNewFile_def)
  have a: "SC_PERFORMED_USER =
      modificationType userDeletion AND (SC_PERFORMED_USER OR SC_PERFORMED_UNDO OR SC_PERFORMED_REDO)"
    by (simp add: userDeletion_def SC_PERFORMED_USER_def SC_PERFORMED_UNDO_def SC_PERFORMED_REDO_def
          SC_MOD_BEFOREDELETE_def)
  have s: "2 = lineFromPosition sampleView (position userDeletion)"
    and e: "4 = lineFromPosition sampleView (position userDeletion + textLength userDeletion)"
    by (simp_all add: userDeletion_def sampleView_def)
  have del: "modificationType userDeletion AND SC_MOD_BEFOREDELETE \<noteq> 0"
    by (simp add: userDeletion_def SC_PERFORMED_USER_def SC_MOD_BEFOREDELETE_def)
  have rest: "(0::int) \<le> 2" "(2::int) < 4" "skipPush (deletedSections sampleNewFile) = 0"
    "\<not> (sections (deletedSections sampleNewFile) \<noteq> [] \<and>
                 restoreAction (last (sections (deletedSections sampleNewFile))) = SC_PERFORMED_USER \<and>
                 lineReplace (last (sections (deletedSections sampleNewFile))))"
    by (simp_all add: sampleNewFile_def newDeletedSectionsList_def)
  note T = deletions_are_restored_by_undo_unless_undone
             [OF k f a s e del performed_distinct(1) rest, of _ 2 3 sampleMasks 1000]
  from T [of SC_PERFORMED_USER]
  have c1: "restoreAction (newDeletedSection SC_PERFORMED_USER 2 3) = SC_PERFORMED_UNDO"
    by (simp add: performed_distinct)
  from T [of SC_PERFORMED_UNDO]
  have c2: "restoreAction (newDeletedSection SC_PERFORMED_UNDO 2 3) = SC_PERFORMED_REDO"
    by simp
  from T [of SC_PERFORMED_USER]
  obtain cl' v' h where run: "onSciModified sampleMasks 1000 userDeletion 8 ([samplePair], sampleView) = Some (cl', v')"
    and h: "h = deletedSections (getFileByBuffId (cl' ! 0) 8)"
      "length (sections h) = length (sections (deletedSections sampleNewFile)) + 1"
      "restoreAction (last (sections h)) = SC_PERFORMED_UNDO"
      "startLine (last (sections h)) = 2"
    and later: "\<forall>c l t2 v2. c \<noteq> SC_PERFORMED_UNDO \<or> l \<noteq> 2 \<longrightarrow>
          snd (pop sampleMasks t2 c l (h, v2)) = v2 \<and>
          length (sections (fst (pop sampleMasks t2 c l (h, v2)))) = length (sections h)"
    by blast
  from h have len: "length (sections h) = 1"
    by (simp add: sampleNewFile_def newDeletedSectionsList_def)
  from later [rule_format, of SC_PERFORMED_REDO 2 2000 sampleView]
       later [rule_format, of SC_PERFORMED_UNDO 3 2000 sampleView] len
  have "snd (pop sampleMasks 2000 SC_PERFORMED_REDO 2 (h, sampleView)) = sampleView"
    "length (sections (fst (pop sampleMasks 2000 SC_PERFORMED_REDO 2 (h, sampleView)))) = 1"
    "snd (pop sampleMasks 2000 SC_PERFORMED_UNDO 3 (h, sampleView)) = sampleView"
    by (simp_all add: performed_distinct)
  with c1 c2 run h len show ?thesis by blast
qed

section \<open>Properties of the scheduler\<close>

lemma onSciModifiedUpdate_pending:
  assumes "getCompare b cl = Some k"
    and "modificationType n AND SC_MOD_BEFOREDELETE = 0"
    and "modificationType n AND (SC_MOD_INSERTTEXT OR SC_MOD_DELETETEXT) \<noteq> 0"
    and "\<not> fullCompare du" "isPending du"
  shows "onSciModifiedUpdate mk n b cl (v, du) =
    (v, du\<lparr>timer := Some 10,
           timerCalls := timerCalls du @ [Cancelled, Armed 10],
           changePos := min (changePos du) (position n),
           linesAdded := linesAdded du +
             (if modificationType n AND SC_MOD_INSERTTEXT \<noteq> 0 then notifiedLinesAdded n else 0),
           linesDeleted := linesDeleted du +
             (if modificationType n AND SC_MOD_INSERTTEXT \<noteq> 0 then 0 else - notifiedLinesAdded n)\<rparr>)"
  using assms
  by (simp add: onSciModifiedUpdate_def Let_def post_def cancel_def isPending_def min_def)

lemma burst_pending:
  assumes "getCompare b cl = Some k"
    and "\<forall>n\<in>set ns. modificationType n AND SC_MOD_BEFOREDELETE = 0 \<and>
                     modificationType n AND (SC_MOD_INSERTTEXT OR SC_MOD_DELETETEXT) \<noteq> 0"
    and "\<not> fullCompare du" "isPending du"
  shows "foldl (\<lambda>st n. onSciModifiedUpdate mk n b cl st) (v, du) ns =
    (v, du\<lparr>timer := (if ns = [] then timer du else Some 10),
           timerCalls := timerCalls du @ concat (replicate (length ns) [Cancelled, Armed 10]),
           changePos := Min (insert (changePos du) (position ` set ns)),
           linesAdded := linesAdded du +
             (\<Sum>n\<leftarrow>ns. if modificationType n AND SC_MOD_INSERTTEXT \<noteq> 0 then notifiedLinesAdded n else 0),
           linesDeleted := linesDeleted du +
             (\<Sum>n\<leftarrow>ns. if modificationType n AND SC_MOD_INSERTTEXT \<noteq> 0 then 0 else - notifiedLinesAdded n)\<rparr>)"
  using assms(2-)
proof (induction ns arbitrary: du)
  case Nil
  then show ?case by simp
next
  case (Cons n ns)
  define du1 where "du1 = du\<lparr>timer := Some 10,
           timerCalls := timerCalls du @ [Cancelled, Armed 10],
           changePos := min (changePos du) (position n),
           linesAdded := linesAdded du +
             (if modificationType n AND SC_MOD_INSERTTEXT \<noteq> 0 then notifiedLinesAdded n else 0),
           linesDeleted := linesDeleted du +
             (if modificationType n AND SC_MOD_INSERTTEXT \<noteq> 0 then 0 else - notifiedLinesAdded n)\<rparr>"
  from Cons.prems have step: "onSciModifiedUpdate mk n b cl (v, du) = (v, du1)"
    unfolding du1_def by (intro onSciModifiedUpdate_pending [OF assms(1)]) simp_all
  have du1: "\<not> fullCompare du1" "isPending du1"
    using Cons.prems by (simp_all add: du1_def isPending_def)
  from Cons.prems have rest: "\<forall>n\<in>set ns. modificationType n AND SC_MOD_BEFOREDELETE = 0 \<and>
                     modificationType n AND (SC_MOD_INSERTTEXT OR SC_MOD_DELETETEXT) \<noteq> 0"
    by simp
  have m: "Min (insert (min (changePos du) (position n)) (position ` set ns))
         = Min (insert (changePos du) (insert (position n) (position ` set ns)))"
  proof (cases "ns = []")
    case True
    then show ?thesis by simp
  next
    case False
    then have ne: "position ` set ns \<noteq> {}" by simp
    have "Min (insert (min (changePos du) (position n)) (position ` set ns))
        = min (min (changePos du) (position n)) (Min (position ` set ns))"
      using ne by simp
    also have "\<dots> = min (changePos du) (min (position n) (Min (position ` set ns)))"
      by (simp add: min.assoc)
    also have "\<dots> = Min (insert (changePos du) (insert (position n) (position ` set ns)))"
      using ne by simp
    finally show ?thesis .
  qed
  show ?case
    by (simp add: step Cons.IH [OF rest du1] m) (simp add: du1_def add.assoc)
qed

text \<open>
  Claim C7. While an incremental update is pending and no full re-compare is requested,
  every notification of inserted or deleted text in a compared buffer cancels the timer
  and then arms it again with 10 ms (the calls on the slot are one cancellation followed
  by one arming, and the timer is armed afterwards), adds the lines it reports to the
  pending counter of added lines (an insertion) or of deleted lines (a deletion), and
  keeps as the pending change position the smaller of the stored position and its own.
  So after a burst of such notifications the timer was cancelled and armed again once for
  each of them, and the pending update holds the least change position seen and the sums
  of the added and of the deleted lines.
\<close>

theorem pending_update_merges_edits:
  assumes "getCompare b cl = Some k"
    and "\<forall>n\<in>set (n0 # ns). modificationType n AND SC_MOD_BEFOREDELETE = 0 \<and>
                     modificationType n AND (SC_MOD_INSERTTEXT OR SC_MOD_DELETETEXT) \<noteq> 0"
    and "\<not> fullCompare du" "isPending du"
  shows "onSciModifiedUpdate mk n0 b cl (v, du) =
      (v, du\<lparr>timer := Some 10,
             timerCalls := timerCalls du @ [Cancelled, Armed 10],
             changePos := min (changePos du) (position n0),
             linesAdded := linesAdded du +
               (if modificationType n0 AND SC_MOD_INSERTTEXT \<noteq> 0 then notifiedLinesAdded n0 else 0),
             linesDeleted := linesDeleted du +
               (if modificationType n0 AND SC_MOD_INSERTTEXT \<noteq> 0 then 0 else - notifiedLinesAdded n0)\<rparr>) \<and>
    foldl (\<lambda>st n. onSciModifiedUpdate mk n b cl st) (v, du) (n0 # ns) =
      (v, du\<lparr>timer := Some 10,
             timerCalls := timerCalls du @ concat (replicate (length (n0 # ns)) [Cancelled, Armed 10]),
             changePos := Min (insert (changePos du) (position ` set (n0 # ns))),
             linesAdded := linesAdded du +
               (\<Sum>n\<leftarrow>n0 # ns. if modificationType n AND SC_MOD_INSERTTEXT \<noteq> 0 then notifiedLinesAdded n else 0),
             linesDeleted := linesDeleted du +
               (\<Sum>n\<leftarrow>n0 # ns. if modificationType n AND SC_MOD_INSERTTEXT \<noteq> 0 then 0 else - notifiedLinesAdded n)\<rparr>)"
proof
  from assms(2) have "modificationType n0 AND SC_MOD_BEFOREDELETE = 0"
    "modificationType n0 AND (SC_MOD_INSERTTEXT OR SC_MOD_DELETETEXT) \<noteq> 0"
    by simp_all
  then show "onSciModifiedUpdate mk n0 b cl (v, du) =
      (v, du\<lparr>timer := Some 10,
             timerCalls := timerCalls du @ [Cancelled, Armed 10],
             changePos := min (changePos du) (position n0),
             linesAdded := linesAdded du +
               (if modificationType n0 AND SC_MOD_INSERTTEXT \<noteq> 0 then notifiedLinesAdded n0 else 0),
             linesDeleted := linesDeleted du +
               (if modificationType n0 AND SC_MOD_INSERTTEXT \<noteq> 0 then 0 else - notifiedLinesAdded n0)\<rparr>)"
    by (rule onSciModifiedUpdate_pending [OF assms(1) _ _ assms(3,4)])
  have "foldl (\<lambda>st n. onSciModifiedUpdate mk n b cl st) (v, du) (n0 # ns) =
    (v, du\<lparr>timer := (if n0 # ns = [] then timer du else Some 10),
           timerCalls := timerCalls du @ concat (replicate (length (n0 # ns)) [Cancelled, Armed 10]),
           changePos := Min (insert (changePos du) (position ` set (n0 # ns))),
           linesAdded := linesAdded du +
             (\<Sum>n\<leftarrow>n0 # ns. if modificationType n AND SC_MOD_INSERTTEXT \<noteq> 0 then notifiedLinesAdded n else 0),
           linesDeleted := linesDeleted du +
             (\<Sum>n\<leftarrow>n0 # ns. if modificationType n AND SC_MOD_INSERTTEXT \<noteq> 0 then 0 else - notifiedLinesAdded n)\<rparr>)"
    using assms by (rule burst_pending)
  then show "foldl (\<lambda>st n. onSciModifiedUpdate mk n b cl st) (v, du) (n0 # ns) =
      (v, du\<lparr>timer := Some 10,
             timerCalls := timerCalls du @ concat (replicate (length (n0 # ns)) [Cancelled, Armed 10]),
             changePos := Min (insert (changePos du) (position ` set (n0 # ns))),
             linesAdded := linesAdded du +
               (\<Sum>n\<leftarrow>n0 # ns. if modificationType n AND SC_MOD_INSERTTEXT \<noteq> 0 then notifiedLinesAdded n else 0),
             linesDeleted := linesDeleted du +
               (\<Sum>n\<leftarrow>n0 # ns. if modificationType n AND SC_MOD_INSERTTEXT \<noteq> 0 then 0 else - notifiedLinesAdded n)\<rparr>)"
    by simp
qed

theorem pending_update_merges_edits_witness:
  "onSciModifiedUpdate sampleMasks userInsertion 8 [samplePair] (sampleView, samplePending) =
     (sampleView, \<lparr> timer = Some 10, timerCalls = [Armed 10, Cancelled, Armed 10], changePos = 30,
                    linesAdded = 3, linesDeleted = 0, fullCompare = False \<rparr>) \<and>
   foldl (\<lambda>st n. onSciModifiedUpdate sampleMasks n 8 [samplePair] st) (sampleView, samplePending)
     [userInsertion, userRemoval] =
     (sampleView, \<lparr> timer = Some 10,
                    timerCalls = [Armed 10, Cancelled, Armed 10, Cancelled, Armed 10], changePos = 30,
                    linesAdded = 3, linesDeleted = 1, fullCompare = False \<rparr>)"
proof -
  have k: "getCompare 8 [samplePair] = Some 0"
    by (simp add: samplePair_def sampleOldFile_def sampleNewFile_def)
  have edits: "\<forall>n\<in>set [userInsertion, userRemoval]. modificationType n AND SC_MOD_BEFOREDELETE = 0 \<and>
                     modificationType n AND (SC_MOD_INSERTTEXT OR SC_MOD_DELETETEXT) \<noteq> 0"
    by (simp add: userInsertion_def userRemoval_def SC_MOD_INSERTTEXT_def SC_MOD_DELETETEXT_def
          SC_MOD_BEFOREDELETE_def SC_PERFORMED_USER_def)
  have p: "\<not> fullCompare samplePending" "isPending samplePending"
    by (simp_all add: samplePending_def isPending_def)
  have ins: "modificationType userInsertion AND SC_MOD_INSERTTEXT \<noteq> 0"
    "modificationType userRemoval AND SC_MOD_INSERTTEXT = 0"
    by (simp_all add: userInsertion_def userRemoval_def SC_MOD_INSERTTEXT_def SC_MOD_DELETETEXT_def
          SC_PERFORMED_USER_def)
  have vals: "position userInsertion = 30" "position userRemoval = 70"
    "notifiedLinesAdded userInsertion = 2" "notifiedLinesAdded userRemoval = - 1"
    by (simp_all add: userInsertion_def userRemoval_def)
  note T = pending_update_merges_edits [OF k edits p, of sampleMasks sampleView]
  have r1: "samplePending\<lparr>timer := Some 10,
             timerCalls := timerCalls samplePending @ [Cancelled, Armed 10],
             changePos := min (changePos samplePending) (position userInsertion),
             linesAdded := linesAdded samplePending +
               (if modificationType userInsertion AND SC_MOD_INSERTTEXT \<noteq> 0
                then notifiedLinesAdded userInsertion else 0),
             linesDeleted := linesDeleted samplePending +
               (if modificationType userInsertion AND SC_MOD_INSERTTEXT \<noteq> 0 then 0
                else - notifiedLinesAdded userInsertion)\<rparr>
     = \<lparr> timer = Some 10, timerCalls = [Armed 10, Cancelled, Armed 10], changePos = 30,
         linesAdded = 3, linesDeleted = 0, fullCompare = False \<rparr>"
    by (simp add: ins vals) (simp add: samplePending_def)
  have r2: "samplePending\<lparr>timer := Some 10,
             timerCalls := timerCalls samplePending @
               concat (replicate (length [userInsertion, userRemoval]) [Cancelled, Armed 10]),
             changePos := Min (insert (changePos samplePending) (position ` set [userInsertion, userRemoval])),
             linesAdded := linesAdded samplePending +
               (\<Sum>n\<leftarrow>[userInsertion, userRemoval].
                  if modificationType n AND SC_MOD_INSERTTEXT \<noteq> 0 then notifiedLinesAdded n else 0),
             linesDeleted := linesDeleted samplePending +
               (\<Sum>n\<leftarrow>[userInsertion, userRemoval].
                  if modificationType n AND SC_MOD_INSERTTEXT \<noteq> 0 then 0 else - notifiedLinesAdded n)\<rparr>
     = \<lparr> timer = Some 10, timerCalls = [Armed 10, Cancelled, Armed 10, Cancelled, Armed 10],
         changePos = 30, linesAdded = 3, linesDeleted = 1, fullCompare = False \<rparr>"
    by (simp add: ins vals) (simp add: samplePending_def)
  from T show ?thesis
    unfolding r1 r2 .
qed

section \<open>Properties of the alignment engine\<close>

lemma isAlignmentNeededLoop_iff:
  "isAlignmentNeededLoop sci st view firstLine lastLine al \<longleftrightarrow>
     (\<exists>i<length al. (\<forall>j<i. line (pView view (al ! j)) \<le> lastLine) \<and>
        firstLine \<le> line (pView view (al ! i)) \<and> misaligned sci st (al ! i))"
proof (induction al)
  case Nil
  then show ?case by simp
next
  case (Cons a rest)
  let ?P = "\<lambda>xs i. (\<forall>j<i. line (pView view (xs ! j)) \<le> lastLine) \<and>
        firstLine \<le> line (pView view (xs ! i)) \<and> misaligned sci st (xs ! i)"
  have split: "(\<exists>i<length (a # rest). ?P (a # rest) i) \<longleftrightarrow>
      (firstLine \<le> line (pView view a) \<and> misaligned sci st a) \<or>
      (line (pView view a) \<le> lastLine \<and> (\<exists>i<length rest. ?P rest i))"
  proof
    assume "\<exists>i<length (a # rest). ?P (a # rest) i"
    then obtain i where i: "i < length (a # rest)" "?P (a # rest) i" by blast
    show "(firstLine \<le> line (pView view a) \<and> misaligned sci st a) \<or>
      (line (pView view a) \<le> lastLine \<and> (\<exists>i<length rest. ?P rest i))"
    proof (cases i)
      case 0
      with i show ?thesis by simp
    next
      case (Suc i')
      with i have "i' < length rest" by simp
      moreover from i Suc have "line (pView view ((a # rest) ! 0)) \<le> lastLine" by blast
      moreover have "?P rest i'"
      proof (intro conjI allI impI)
        fix j assume "j < i'"
        then have "Suc j < i" using Suc by simp
        with i have "line (pView view ((a # rest) ! Suc j)) \<le> lastLine" by blast
        then show "line (pView view (rest ! j)) \<le> lastLine" by simp
      next
        from i Suc show "firstLine \<le> line (pView view (rest ! i'))" by simp
        from i Suc show "misaligned sci st (rest ! i')" by simp
      qed
      ultimately show ?thesis by auto
    qed
  next
    assume "(firstLine \<le> line (pView view a) \<and> misaligned sci st a) \<or>
      (line (pView view a) \<le> lastLine \<and> (\<exists>i<length rest. ?P rest i))"
    then show "\<exists>i<length (a # rest). ?P (a # rest) i"
    proof
      assume "firstLine \<le> line (pView view a) \<and> misaligned sci st a"
      then have "?P (a # rest) 0" by simp
      then show ?thesis by blast
    next
      assume r: "line (pView view a) \<le> lastLine \<and> (\<exists>i<length rest. ?P rest i)"
      then obtain i where i: "i < length rest" "?P rest i" by blast
      have "?P (a # rest) (Suc i)"
      proof (intro conjI allI impI)
        fix j assume "j < Suc i"
        then show "line (pView view ((a # rest) ! j)) \<le> lastLine"
          using r i by (cases j) auto
      next
        from i show "firstLine \<le> line (pView view ((a # rest) ! Suc i))" by simp
        from i show "misaligned sci st ((a # rest) ! Suc i)" by simp
      qed
      with i show ?thesis by (intro exI [of _ "Suc i"]) simp
    qed
  qed
  show ?case
    unfolding split using Cons.IH by auto
qed

text \<open>
  Claim C6, as stated: \<^verbatim>\<open>isAlignmentNeeded\<close> examines only the records whose line lies
  within the viewport plus one screen below. It fails for the first record past that
  range, which the loop tests before it leaves (the test of line 1131 comes after the
  test of lines 1120-1129): in the toy editor, whose main view shows lines 0 to 10, with
  the text of the sub view one line lower than that of the main view, the only record, at
  line 100 of both views, makes the function return true.
\<close>

theorem far_record_triggers_realignment:
  "isAlignmentNeeded toyEditor shiftedSub MAIN_VIEW [sameLines 100] \<and>
   SCI_GETFIRSTVISIBLELINE toyEditor shiftedSub MAIN_VIEW = 0 \<and>
   SCI_LINESONSCREEN toyEditor shiftedSub MAIN_VIEW = 10 \<and>
   SCI_DOCLINEFROMVISIBLE toyEditor shiftedSub MAIN_VIEW (0 + 10 + 10) = 20 \<and>
   line (pView MAIN_VIEW (sameLines 100)) = 100"
  by (simp add: isAlignmentNeeded_def toyEditor_def shiftedSub_def sameLines_def pView_def
        misaligned_def MAIN_VIEW_def SUB_VIEW_def)

text \<open>
  Claim C6, amended. \<^verbatim>\<open>isAlignmentNeeded(view, alignment)\<close> scans the records in their
  order up to and including the first record whose line on the given view lies past the
  document line of the first visible line plus the lines on screen, and returns true
  exactly when one of the scanned records has its line on the given view at or after the
  first visible document line, carries the same diff mask on both sides, and has
  different visible (fold-translated) line positions in the two views.
\<close>

theorem alignment_needed_iff_scanned_record_misaligned:
  "isAlignmentNeeded sci st view al \<longleftrightarrow>
     (\<exists>i<length al.
        (\<forall>j<i. line (pView view (al ! j)) \<le>
           SCI_DOCLINEFROMVISIBLE sci st view
             (SCI_GETFIRSTVISIBLELINE sci st view + SCI_LINESONSCREEN sci st view)) \<and>
        SCI_DOCLINEFROMVISIBLE sci st view (SCI_GETFIRSTVISIBLELINE sci st view)
          \<le> line (pView view (al ! i)) \<and>
        diffMask (main (al ! i)) = diffMask (sub (al ! i)) \<and>
        SCI_VISIBLEFROMDOCLINE sci st MAIN_VIEW (line (main (al ! i))) \<noteq>
        SCI_VISIBLEFROMDOCLINE sci st SUB_VIEW (line (sub (al ! i))))"
  by (simp add: isAlignmentNeeded_def Let_def isAlignmentNeededLoop_iff misaligned_def)

theorem alignment_needed_iff_scanned_record_misaligned_witness:
  "isAlignmentNeeded toyEditor shiftedSub MAIN_VIEW [sameLines 3, sameLines 7] \<and>
   \<not> isAlignmentNeeded toyEditor shiftedSub MAIN_VIEW [alignedAt 3 2, alignedAt 7 6]"
proof -
  have "\<exists>i<length [sameLines 3, sameLines 7].
        (\<forall>j<i. line (pView MAIN_VIEW ([sameLines 3, sameLines 7] ! j)) \<le>
           SCI_DOCLINEFROMVISIBLE toyEditor shiftedSub MAIN_VIEW
             (SCI_GETFIRSTVISIBLELINE toyEditor shiftedSub MAIN_VIEW + SCI_LINESONSCREEN toyEditor shiftedSub MAIN_VIEW)) \<and>
        SCI_DOCLINEFROMVISIBLE toyEditor shiftedSub MAIN_VIEW (SCI_GETFIRSTVISIBLELINE toyEditor shiftedSub MAIN_VIEW)
          \<le> line (pView MAIN_VIEW ([sameLines 3, sameLines 7] ! i)) \<and>
        diffMask (main ([sameLines 3, sameLines 7] ! i)) = diffMask (sub ([sameLines 3, sameLines 7] ! i)) \<and>
        SCI_VISIBLEFROMDOCLINE toyEditor shiftedSub MAIN_VIEW (line (main ([sameLines 3, sameLines 7] ! i))) \<noteq>
        SCI_VISIBLEFROMDOCLINE toyEditor shiftedSub SUB_VIEW (line (sub ([sameLines 3, sameLines 7] ! i)))"
    by (intro exI [of _ 0])
       (simp add: toyEditor_def shiftedSub_def sameLines_def pView_def MAIN_VIEW_def SUB_VIEW_def)
  then have a: "isAlignmentNeeded toyEditor shiftedSub MAIN_VIEW [sameLines 3, sameLines 7]"
    using alignment_needed_iff_scanned_record_misaligned
            [of toyEditor shiftedSub MAIN_VIEW "[sameLines 3, sameLines 7]"]
    by blast
  have "\<not> (\<exists>i<length [alignedAt 3 2, alignedAt 7 6].
        (\<forall>j<i. line (pView MAIN_VIEW ([alignedAt 3 2, alignedAt 7 6] ! j)) \<le>
           SCI_DOCLINEFROMVISIBLE toyEditor shiftedSub MAIN_VIEW
             (SCI_GETFIRSTVISIBLELINE toyEditor shiftedSub MAIN_VIEW + SCI_LINESONSCREEN toyEditor shiftedSub MAIN_VIEW)) \<and>
        SCI_DOCLINEFROMVISIBLE toyEditor shiftedSub MAIN_VIEW (SCI_GETFIRSTVISIBLELINE toyEditor shiftedSub MAIN_VIEW)
          \<le> line (pView MAIN_VIEW ([alignedAt 3 2, alignedAt 7 6] ! i)) \<and>
        diffMask (main ([alignedAt 3 2, alignedAt 7 6] ! i)) = diffMask (sub ([alignedAt 3 2, alignedAt 7 6] ! i)) \<and>
        SCI_VISIBLEFROMDOCLINE toyEditor shiftedSub MAIN_VIEW (line (main ([alignedAt 3 2, alignedAt 7 6] ! i))) \<noteq>
        SCI_VISIBLEFROMDOCLINE toyEditor shiftedSub SUB_VIEW (line (sub ([alignedAt 3 2, alignedAt 7 6] ! i))))"
    by (auto simp add: toyEditor_def shiftedSub_def alignedAt_def pView_def MAIN_VIEW_def SUB_VIEW_def
          less_Suc_eq)
  then have b: "\<not> isAlignmentNeeded toyEditor shiftedSub MAIN_VIEW [alignedAt 3 2, alignedAt 7 6]"
    using alignment_needed_iff_scanned_record_misaligned
            [of toyEditor shiftedSub MAIN_VIEW "[alignedAt 3 2, alignedAt 7 6]"]
    by blast
  from a b show ?thesis by simp
qed

lemma alignRecord_call:
  assumes "snd (alignRecord sci al i st) = Some c"
  shows "atRecord c = i \<and> (inView c = MAIN_VIEW \<or> inView c = SUB_VIEW) \<and>
     beforeLine c = line (pView (inView c) (al ! i)) \<and>
     0 < blankLength c \<and>
     \<not> (i + 1 < length al \<and> line (pView (inView c) (al ! i)) = line (pView (inView c) (al ! (i + 1))))"
proof -
  have views: "SUB_VIEW \<noteq> MAIN_VIEW" by (simp add: MAIN_VIEW_def SUB_VIEW_def)
  from assms show ?thesis
    unfolding alignRecord_def Let_def
    by (auto simp add: pView_def views split: if_splits)
qed

lemma alignDiffsLoop_stop:
  "\<not> (i < length al \<and> line (main (al ! i)) \<le> mainEndLine \<and> line (sub (al ! i)) \<le> subEndLine) \<Longrightarrow>
     alignDiffsLoop sci al mainEndLine subEndLine i st = (st, [])"
  by (subst alignDiffsLoop.simps) auto

lemma alignDiffsLoop_step:
  "i < length al \<and> line (main (al ! i)) \<le> mainEndLine \<and> line (sub (al ! i)) \<le> subEndLine \<Longrightarrow>
     snd (alignDiffsLoop sci al mainEndLine subEndLine i st) =
       (case snd (alignRecord sci al i st) of None \<Rightarrow> [] | Some c \<Rightarrow> [c]) @
       snd (alignDiffsLoop sci al mainEndLine subEndLine (i + 1) (fst (alignRecord sci al i st)))"
  by (subst alignDiffsLoop.simps) (simp add: Let_def split: option.splits)

lemma alignDiffsLoop_calls:
  "c \<in> set (snd (alignDiffsLoop sci al mainEndLine subEndLine i st)) \<Longrightarrow>
     i \<le> atRecord c \<and> atRecord c < length al \<and>
     (inView c = MAIN_VIEW \<or> inView c = SUB_VIEW) \<and>
     beforeLine c = line (pView (inView c) (al ! atRecord c)) \<and>
     0 < blankLength c \<and>
     \<not> (atRecord c + 1 < length al \<and>
        line (pView (inView c) (al ! atRecord c)) = line (pView (inView c) (al ! (atRecord c + 1))))"
proof (induction sci al mainEndLine subEndLine i st rule: alignDiffsLoop.induct)
  case (1 sci al mainEndLine subEndLine i st)
  show ?case
  proof (cases "i < length al \<and> line (main (al ! i)) \<le> mainEndLine \<and> line (sub (al ! i)) \<le> subEndLine")
    case False
    from "1.prems" show ?thesis
      unfolding alignDiffsLoop_stop [OF False] by simp
  next
    case True
    from "1.prems" consider (here) "snd (alignRecord sci al i st) = Some c"
      | (later) "c \<in> set (snd (alignDiffsLoop sci al mainEndLine subEndLine (i + 1)
                                (fst (alignRecord sci al i st))))"
      unfolding alignDiffsLoop_step [OF True] by (auto split: option.splits)
    then show ?thesis
    proof cases
      case here
      from alignRecord_call [OF here] True show ?thesis by simp
    next
      case later
      from "1.IH" [OF True refl later] show ?thesis by simp
    qed
  qed
qed

lemma alignDiffsLoop_sorted:
  "sorted_wrt (<) (map atRecord (snd (alignDiffsLoop sci al mainEndLine subEndLine i st)))"
proof (induction sci al mainEndLine subEndLine i st rule: alignDiffsLoop.induct)
  case (1 sci al mainEndLine subEndLine i st)
  show ?case
  proof (cases "i < length al \<and> line (main (al ! i)) \<le> mainEndLine \<and> line (sub (al ! i)) \<le> subEndLine")
    case False
    show ?thesis
      unfolding alignDiffsLoop_stop [OF False] by simp
  next
    case True
    define rest where "rest = snd (alignDiffsLoop sci al mainEndLine subEndLine (i + 1)
                                     (fst (alignRecord sci al i st)))"
    have sorted: "sorted_wrt (<) (map atRecord rest)"
      unfolding rest_def by (rule "1.IH" [OF True refl])
    have later: "i + 1 \<le> atRecord d" if "d \<in> set rest" for d
      using alignDiffsLoop_calls [of d sci al mainEndLine subEndLine "i + 1" "fst (alignRecord sci al i st)"] that
      by (simp add: rest_def)
    show ?thesis
    proof (cases "snd (alignRecord sci al i st)")
      case None
      with sorted show ?thesis
        unfolding alignDiffsLoop_step [OF True] rest_def [symmetric] by simp
    next
      case (Some c)
      from alignRecord_call [OF Some] have "atRecord c = i" by simp
      with later have "\<forall>d\<in>set rest. atRecord c < atRecord d" by fastforce
      with Some sorted show ?thesis
        unfolding alignDiffsLoop_step [OF True] rest_def [symmetric] by simp
    qed
  qed
qed

lemma at_most_one_with_key:
  assumes "sorted_wrt (<) (map f xs)" and "\<And>x. x \<in> set xs \<Longrightarrow> P x \<Longrightarrow> f x = (k::nat)"
  shows "length (filter P xs) \<le> 1"
  using assms
proof (induction xs)
  case Nil
  then show ?case by simp
next
  case (Cons x xs)
  show ?case
  proof (cases "P x")
    case False
    with Cons show ?thesis by simp
  next
    case True
    with Cons.prems have fx: "f x = k" by simp
    have "filter P xs = []"
    proof (rule ccontr)
      assume "filter P xs \<noteq> []"
      then obtain y where y: "y \<in> set xs" "P y" by (auto simp add: filter_empty_conv)
      with Cons.prems have "f y = k" by simp
      moreover from Cons.prems(1) y have "f x < f y" by simp
      ultimately show False using fx by simp
    qed
    with True show ?thesis by simp
  qed
qed

lemma toy_alignment:
  "snd (alignDiffs toyEditor [alignedAt 3 2, alignedAt 4 2, alignedAt 5 3] (\<lambda>view. 0)) =
     [\<lparr> atRecord = 1, inView = SUB_VIEW, beforeLine = 2, blankLength = 2 \<rparr>]"
  by (simp add: alignDiffs_def alignDiffsLoop.simps alignRecord_def Let_def toyEditor_def alignedAt_def
        MAIN_VIEW_def SUB_VIEW_def)

text \<open>
  Claim C5. Whenever the records \<open>i\<close> to \<open>j\<close> of an alignment sequence map to the same
  document line on one side, \<^verbatim>\<open>alignDiffs\<close> calls \<^verbatim>\<open>addBlankSection\<close> for that side at most
  once while it is at the records of the run, and only when it is at the last one, \<open>j\<close>:
  never once per record.
\<close>

theorem padding_once_after_last_record_of_run:
  assumes "i \<le> j" "j < length al"
    and run: "\<forall>k. i \<le> k \<and> k < j \<longrightarrow> line (pView view (al ! k)) = line (pView view (al ! (k + 1)))"
  shows "(\<forall>c\<in>set (snd (alignDiffs sci al st)).
            inView c = view \<and> i \<le> atRecord c \<and> atRecord c \<le> j \<longrightarrow> atRecord c = j) \<and>
         length (filter (\<lambda>c. inView c = view \<and> i \<le> atRecord c \<and> atRecord c \<le> j)
                   (snd (alignDiffs sci al st))) \<le> 1"
proof -
  define calls where "calls = snd (alignDiffs sci al st)"
  have last: "atRecord c = j"
    if c: "c \<in> set calls" and v: "inView c = view" and r: "i \<le> atRecord c" "atRecord c \<le> j" for c
  proof (rule ccontr)
    assume "atRecord c \<noteq> j"
    with r have lt: "atRecord c < j" by simp
    with run r have "line (pView view (al ! atRecord c)) = line (pView view (al ! (atRecord c + 1)))"
      by blast
    moreover from lt assms(2) have "atRecord c + 1 < length al" by simp
    moreover from c have "\<not> (atRecord c + 1 < length al \<and>
        line (pView (inView c) (al ! atRecord c)) = line (pView (inView c) (al ! (atRecord c + 1))))"
      unfolding calls_def alignDiffs_def Let_def by (rule alignDiffsLoop_calls [THEN conjunct2, THEN conjunct2, THEN conjunct2, THEN conjunct2, THEN conjunct2])
    ultimately show False using v by simp
  qed
  have "sorted_wrt (<) (map atRecord calls)"
    unfolding calls_def alignDiffs_def Let_def by (rule alignDiffsLoop_sorted)
  then have "length (filter (\<lambda>c. inView c = view \<and> i \<le> atRecord c \<and> atRecord c \<le> j) calls) \<le> 1"
    by (rule at_most_one_with_key [where k = j]) (use last in blast)
  with last show ?thesis
    unfolding calls_def by blast
qed

theorem padding_once_after_last_record_of_run_witness:
  "line (pView SUB_VIEW ([alignedAt 3 2, alignedAt 4 2, alignedAt 5 3] ! 0)) =
     line (pView SUB_VIEW ([alignedAt 3 2, alignedAt 4 2, alignedAt 5 3] ! 1)) \<and>
   length (filter (\<lambda>c. inView c = SUB_VIEW \<and> 0 \<le> atRecord c \<and> atRecord c \<le> 1)
             (snd (alignDiffs toyEditor [alignedAt 3 2, alignedAt 4 2, alignedAt 5 3] (\<lambda>view. 0)))) \<le> 1 \<and>
   snd (alignDiffs toyEditor [alignedAt 3 2, alignedAt 4 2, alignedAt 5 3] (\<lambda>view. 0)) =
     [\<lparr> atRecord = 1, inView = SUB_VIEW, beforeLine = 2, blankLength = 2 \<rparr>]"
proof -
  have run: "\<forall>k. 0 \<le> k \<and> k < 1 \<longrightarrow>
      line (pView SUB_VIEW ([alignedAt 3 2, alignedAt 4 2, alignedAt 5 3] ! k)) =
      line (pView SUB_VIEW ([alignedAt 3 2, alignedAt 4 2, alignedAt 5 3] ! (k + 1)))"
    by (simp add: alignedAt_def pView_def MAIN_VIEW_def SUB_VIEW_def)
  have same: "line (pView SUB_VIEW ([alignedAt 3 2, alignedAt 4 2, alignedAt 5 3] ! 0)) =
     line (pView SUB_VIEW ([alignedAt 3 2, alignedAt 4 2, alignedAt 5 3] ! 1))"
    by (simp add: alignedAt_def pView_def MAIN_VIEW_def SUB_VIEW_def)
  have "(0::nat) \<le> 1" "1 < length [alignedAt 3 2, alignedAt 4 2, alignedAt 5 3]" by simp_all
  from padding_once_after_last_record_of_run [OF this run, of toyEditor "\<lambda>view. 0"]
  have "length (filter (\<lambda>c. inView c = SUB_VIEW \<and> 0 \<le> atRecord c \<and> atRecord c \<le> 1)
             (snd (alignDiffs toyEditor [alignedAt 3 2, alignedAt 4 2, alignedAt 5 3] (\<lambda>view. 0)))) \<le> 1"
    by blast
  with same toy_alignment show ?thesis by blast
qed

section \<open>Properties of restoring the files\<close>

lemma views_distinct: "MAIN_VIEW \<noteq> SUB_VIEW" "SUB_VIEW \<noteq> MAIN_VIEW"
  by (simp_all add: MAIN_VIEW_def SUB_VIEW_def)

lemma set_moveTabBackward: "set (moveTabBackward b xs) = set xs"
  by (induction b xs rule: moveTabBackward.induct) auto

lemma length_moveTabBackward: "length (moveTabBackward b xs) = length xs"
  by (induction b xs rule: moveTabBackward.induct) auto

lemma moveTabBackward_swap:
  "b \<notin> set xs \<Longrightarrow> x \<noteq> b \<Longrightarrow> moveTabBackward b (xs @ x # b # ys) = xs @ b # x # ys"
proof (induction xs)
  case Nil
  then show ?case by simp
next
  case (Cons z zs)
  then show ?case by (cases zs) auto
qed

lemma funpow_moveTabBackward:
  "b \<notin> set xs \<Longrightarrow> n \<le> length xs \<Longrightarrow>
     (moveTabBackward b ^^ n) (xs @ b # ys) =
       take (length xs - n) xs @ b # drop (length xs - n) xs @ ys"
proof (induction n)
  case 0
  then show ?case by simp
next
  case (Suc n)
  define k where "k = length xs - Suc n"
  from Suc.prems have k: "k < length xs" "length xs - n = Suc k" by (simp_all add: k_def)
  have t: "take (Suc k) xs = take k xs @ [xs ! k]" using k by (simp add: take_Suc_conv_app_nth)
  have d: "drop k xs = xs ! k # drop (Suc k) xs" using k by (simp add: Cons_nth_drop_Suc)
  have nb: "b \<notin> set (take k xs)" "xs ! k \<noteq> b"
    using Suc.prems(1) k by (auto dest: in_set_takeD)
  have "(moveTabBackward b ^^ Suc n) (xs @ b # ys) =
      moveTabBackward b (take (Suc k) xs @ b # drop (Suc k) xs @ ys)"
    using Suc by (simp add: k)
  also have "\<dots> = moveTabBackward b (take k xs @ xs ! k # b # drop (Suc k) xs @ ys)"
    by (simp add: t)
  also have "\<dots> = take k xs @ b # xs ! k # drop (Suc k) xs @ ys"
    using nb by (rule moveTabBackward_swap)
  also have "\<dots> = take k xs @ b # drop k xs @ ys"
    by (simp add: d)
  finally show ?case by (simp add: k_def)
qed

lemma funpow_tabMoveBackward:
  assumes "activeBuff h = b"
  shows "(tabMoveBackward ^^ n) h =
     h\<lparr>tabs := (tabs h)(viewIdFromBuffId h b := (moveTabBackward b ^^ n) (tabs h (viewIdFromBuffId h b)))\<rparr>"
proof (induction n)
  case 0
  then show ?case by simp
next
  case (Suc n)
  define h' where "h' = h\<lparr>tabs := (tabs h)(viewIdFromBuffId h b := (moveTabBackward b ^^ n) (tabs h (viewIdFromBuffId h b)))\<rparr>"
  have same_set: "set ((moveTabBackward b ^^ n) ys) = set ys" for ys
    by (induction n) (simp_all add: set_moveTabBackward)
  have v: "viewIdFromBuffId h' b = viewIdFromBuffId h b"
    by (auto simp add: h'_def viewIdFromBuffId_def same_set)
  have a: "activeBuff h' = b" using assms by (simp add: h'_def)
  have "(tabMoveBackward ^^ Suc n) h = tabMoveBackward ((tabMoveBackward ^^ n) h)"
    by simp
  also have "\<dots> = tabMoveBackward h'"
    unfolding Suc h'_def ..
  also have "\<dots> = h'\<lparr>tabs := (tabs h')(viewIdFromBuffId h b := moveTabBackward b (tabs h' (viewIdFromBuffId h b)))\<rparr>"
    by (simp add: tabMoveBackward_def Let_def a v)
  also have "\<dots> = h\<lparr>tabs := (tabs h)(viewIdFromBuffId h b := (moveTabBackward b ^^ Suc n) (tabs h (viewIdFromBuffId h b)))\<rparr>"
    by (simp add: h'_def)
  finally show ?case .
qed

lemma takeWhile_absent:
  "a \<notin> set pre \<Longrightarrow> takeWhile (\<lambda>x. x \<noteq> a) (pre @ ys) = pre @ takeWhile (\<lambda>x. x \<noteq> a) ys"
  by (induction pre) auto

lemma restore_at_home:
  assumes "isTemp f = NO_TEMP" "viewIdFromBuffId h (buffId f) = originalViewId f"
  shows "restore f h = h\<lparr>activeBuff := buffId f\<rparr>"
  using assms by (simp add: restore_def Let_def activateBufferID_def viewIdFromBuffId_def)

lemma restore_moved:
  assumes temp: "isTemp f = NO_TEMP"
    and V: "V = MAIN_VIEW \<or> V = SUB_VIEW" "originalViewId f = V"
    and m: "buffId f \<in> set (tabs h (otherView V))" "buffId f \<notin> set (tabs h V)"
    and pos: "0 \<le> originalPos f"
  shows "tabs (restore f h) =
     (tabs h)(otherView V := removeAll (buffId f) (tabs h (otherView V)),
              V := take (nat (originalPos f)) (tabs h V) @ buffId f # drop (nat (originalPos f)) (tabs h V))"
proof -
  define b where "b = buffId f"
  define xs where "xs = tabs h V"
  define ys where "ys = tabs h (otherView V)"
  define h1 where "h1 = activateBufferID b h"
  define h2 where "h2 = gotoAnotherView h1"
  have VO: "otherView V \<noteq> V" "otherView (otherView V) = V"
    using V(1) by (auto simp add: otherView_def views_distinct)
  have v1: "viewIdFromBuffId h1 b = otherView V"
    using V(1) m
    by (auto simp add: h1_def activateBufferID_def viewIdFromBuffId_def otherView_def b_def views_distinct)
  have h1: "activeBuff h1 = b" "tabs h1 = tabs h"
    by (simp_all add: h1_def activateBufferID_def)
  have t2: "tabs h2 = (tabs h)(otherView V := removeAll b ys, V := xs @ [b])"
    by (simp add: h2_def gotoAnotherView_def Let_def h1 v1 VO xs_def ys_def)
  have a2: "activeBuff h2 = b"
    by (simp add: h2_def gotoAnotherView_def Let_def h1)
  have v2: "viewIdFromBuffId h2 b = V"
    using V(1) m VO
    by (auto simp add: viewIdFromBuffId_def t2 otherView_def b_def xs_def views_distinct)
  have open2: "isOpen h2 b"
    using V(1) VO by (auto simp add: isOpen_def t2 otherView_def views_distinct)
  have nb: "b \<notin> set xs" using m by (simp add: xs_def b_def)
  then have tw: "takeWhile (\<lambda>x. x \<noteq> b) (xs @ [b]) = xs"
    by (simp add: takeWhile_absent)
  have p2: "posFromBuffId h2 b = int (length xs)"
    by (simp add: posFromBuffId_def v2 t2 tw)
  have r: "restore f h =
      (if originalPos f \<ge> int (length xs) then h2
       else (tabMoveBackward ^^ nat (int (length xs) - originalPos f)) h2)"
    using temp v1 open2 V(2)
    by (simp add: restore_def Let_def b_def [symmetric] h1_def [symmetric] h2_def [symmetric] p2 VO)
  show ?thesis
  proof (cases "originalPos f \<ge> int (length xs)")
    case True
    then have "take (nat (originalPos f)) xs = xs" "drop (nat (originalPos f)) xs = []" by simp_all
    with True show ?thesis
      by (simp add: r t2 xs_def [symmetric] ys_def [symmetric] b_def [symmetric])
  next
    case False
    define n where "n = nat (int (length xs) - originalPos f)"
    from False pos have n: "n \<le> length xs" "length xs - n = nat (originalPos f)"
      by (simp_all add: n_def)
    have "(moveTabBackward b ^^ n) (xs @ b # []) =
        take (length xs - n) xs @ b # drop (length xs - n) xs @ []"
      using nb n(1) by (rule funpow_moveTabBackward)
    then have mv: "(moveTabBackward b ^^ n) (xs @ [b]) =
        take (nat (originalPos f)) xs @ b # drop (nat (originalPos f)) xs"
      by (simp add: n)
    from False have "restore f h = (tabMoveBackward ^^ n) h2" by (simp add: r n_def)
    also have "\<dots> = h2\<lparr>tabs := (tabs h2)(V := (moveTabBackward b ^^ n) (tabs h2 V))\<rparr>"
      using funpow_tabMoveBackward [OF a2, of n] by (simp add: v2)
    finally show ?thesis
      by (simp add: t2 mv xs_def [symmetric] ys_def [symmetric] b_def [symmetric])
  qed
qed

lemma index_after_insert:
  assumes "a \<in> set xs" "a \<noteq> b"
  shows "length (takeWhile (\<lambda>x. x \<noteq> a) (take k xs @ b # drop k xs)) =
     (if length (takeWhile (\<lambda>x. x \<noteq> a) xs) < k
      then length (takeWhile (\<lambda>x. x \<noteq> a) xs)
      else length (takeWhile (\<lambda>x. x \<noteq> a) xs) + 1)"
proof -
  from assms(1) obtain pre post where xs: "xs = pre @ a # post" and pre: "a \<notin> set pre"
    by (auto dest: split_list_first)
  have q: "takeWhile (\<lambda>x. x \<noteq> a) xs = pre"
    using pre by (simp add: xs takeWhile_absent)
  show ?thesis
  proof (cases "length pre < k")
    case True
    then have "take k xs = pre @ a # take (k - length pre - 1) post"
      by (simp add: xs take_Cons')
    then have "takeWhile (\<lambda>x. x \<noteq> a) (take k xs @ b # drop k xs) = pre"
      using pre by (simp add: takeWhile_absent)
    with True show ?thesis by (simp add: q)
  next
    case False
    then have "take k xs = take k pre" "drop k xs = drop k pre @ a # post"
      by (simp_all add: xs)
    moreover have "a \<notin> set (take k pre)" "a \<notin> set (drop k pre)"
      using pre by (auto dest: in_set_takeD in_set_dropD)
    ultimately have "takeWhile (\<lambda>x. x \<noteq> a) (take k xs @ b # drop k xs) =
        take k pre @ b # drop k pre"
      using assms(2) by (simp add: takeWhile_absent)
    with False show ?thesis by (simp add: q)
  qed
qed

lemma index_of_inserted:
  assumes "b \<notin> set xs"
  shows "length (takeWhile (\<lambda>x. x \<noteq> b) (take k xs @ b # drop k xs)) = min k (length xs)"
proof -
  have "b \<notin> set (take k xs)" using assms by (auto dest: in_set_takeD)
  then show ?thesis by (simp add: takeWhile_absent min_def)
qed

lemma set_insert_at: "set (take k xs @ b # drop k xs) = insert b (set xs)"
proof -
  have "set (take k xs) \<union> set (drop k xs) = set xs"
    by (metis append_take_drop_id set_append)
  then show ?thesis by auto
qed

lemma takeWhile_index_less:
  "a \<in> set xs \<Longrightarrow> length (takeWhile (\<lambda>x. x \<noteq> a) xs) < length xs"
  by (induction xs) auto

lemma restore_both_tabs:
  assumes temp: "isTemp A = NO_TEMP" "isTemp M = NO_TEMP"
    and V: "V = MAIN_VIEW \<or> V = SUB_VIEW" "originalViewId A = V" "originalViewId M = V"
    and a: "buffId A \<in> set (tabs h V)" "buffId A \<notin> set (tabs h (otherView V))"
    and m: "buffId M \<in> set (tabs h (otherView V))" "buffId M \<notin> set (tabs h V)"
    and pos: "0 \<le> originalPos M"
  shows "tabs (restore M (restore A h)) =
     (tabs h)(otherView V := removeAll (buffId M) (tabs h (otherView V)),
              V := take (nat (originalPos M)) (tabs h V) @ buffId M # drop (nat (originalPos M)) (tabs h V))"
    and "tabs (restore A (restore M h)) =
     (tabs h)(otherView V := removeAll (buffId M) (tabs h (otherView V)),
              V := take (nat (originalPos M)) (tabs h V) @ buffId M # drop (nat (originalPos M)) (tabs h V))"
proof -
  have VO: "otherView V \<noteq> V" "V = MAIN_VIEW \<Longrightarrow> otherView V = SUB_VIEW"
    "V = SUB_VIEW \<Longrightarrow> otherView V = MAIN_VIEW"
    using V(1) by (auto simp add: otherView_def views_distinct)
  have homeA: "viewIdFromBuffId h (buffId A) = originalViewId A"
    using V(1,2) a VO by (auto simp add: viewIdFromBuffId_def views_distinct)
  have 1: "restore A h = h\<lparr>activeBuff := buffId A\<rparr>"
    using temp(1) homeA by (rule restore_at_home)
  show "tabs (restore M (restore A h)) =
     (tabs h)(otherView V := removeAll (buffId M) (tabs h (otherView V)),
              V := take (nat (originalPos M)) (tabs h V) @ buffId M # drop (nat (originalPos M)) (tabs h V))"
    unfolding 1 using restore_moved [OF temp(2) V(1,3), of "h\<lparr>activeBuff := buffId A\<rparr>"] m pos
    by simp
  define h' where "h' = restore M h"
  have t: "tabs h' =
     (tabs h)(otherView V := removeAll (buffId M) (tabs h (otherView V)),
              V := take (nat (originalPos M)) (tabs h V) @ buffId M # drop (nat (originalPos M)) (tabs h V))"
    unfolding h'_def using temp(2) V(1,3) m pos by (rule restore_moved)
  have inV: "buffId A \<in> set (take (nat (originalPos M)) (tabs h V) @ buffId M # drop (nat (originalPos M)) (tabs h V))"
    using a(1) by (simp only: set_insert_at) simp
  have homeA': "viewIdFromBuffId h' (buffId A) = originalViewId A"
  proof (cases "V = MAIN_VIEW")
    case True
    with inV VO show ?thesis
      by (simp add: viewIdFromBuffId_def t V(2))
  next
    case False
    with V(1) have S: "V = SUB_VIEW" by simp
    with a(2) VO have "buffId A \<notin> set (removeAll (buffId M) (tabs h MAIN_VIEW))" by simp
    with S VO show ?thesis
      by (simp add: viewIdFromBuffId_def t V(2) views_distinct)
  qed
  have "restore A h' = h'\<lparr>activeBuff := buffId A\<rparr>"
    using temp(1) homeA' by (rule restore_at_home)
  then show "tabs (restore A (restore M h)) =
     (tabs h)(otherView V := removeAll (buffId M) (tabs h (otherView V)),
              V := take (nat (originalPos M)) (tabs h V) @ buffId M # drop (nat (originalPos M)) (tabs h V))"
    by (simp add: h'_def [symmetric] t)
qed

lemma positions_after_restore:
  assumes V: "V = MAIN_VIEW \<or> V = SUB_VIEW"
    and a: "a \<in> set (tabs h V)" "a \<notin> set (tabs h (otherView V))"
    and m: "m \<in> set (tabs h (otherView V))" "m \<notin> set (tabs h V)"
    and t: "tabs h' = (tabs h)(otherView V := removeAll m (tabs h (otherView V)),
                              V := take k (tabs h V) @ m # drop k (tabs h V))"
  shows "posFromBuffId h a = int (length (takeWhile (\<lambda>x. x \<noteq> a) (tabs h V)))"
    and "posFromBuffId h' m = int (min k (length (tabs h V)))"
    and "posFromBuffId h' a =
       (if length (takeWhile (\<lambda>x. x \<noteq> a) (tabs h V)) < k
        then int (length (takeWhile (\<lambda>x. x \<noteq> a) (tabs h V)))
        else int (length (takeWhile (\<lambda>x. x \<noteq> a) (tabs h V))) + 1)"
    and "a \<in> set (tabs h' V)" "m \<in> set (tabs h' V)"
proof -
  have VO: "otherView V \<noteq> V" "V = MAIN_VIEW \<Longrightarrow> otherView V = SUB_VIEW"
    "V = SUB_VIEW \<Longrightarrow> otherView V = MAIN_VIEW"
    using V by (auto simp add: otherView_def views_distinct)
  have ne: "a \<noteq> m" using a m by auto
  have va: "viewIdFromBuffId h a = V"
    using V a VO by (auto simp add: viewIdFromBuffId_def views_distinct)
  have set': "set (take k (tabs h V) @ m # drop k (tabs h V)) = insert m (set (tabs h V))"
    by (rule set_insert_at)
  have tV: "tabs h' V = take k (tabs h V) @ m # drop k (tabs h V)" by (simp add: t)
  have tO: "tabs h' (otherView V) = removeAll m (tabs h (otherView V))" using VO(1) by (simp add: t)
  show inA: "a \<in> set (tabs h' V)" and inM: "m \<in> set (tabs h' V)"
    using a unfolding tV set' by simp_all
  have va': "viewIdFromBuffId h' a = V" and vm': "viewIdFromBuffId h' m = V"
    using V VO inA inM a tO by (auto simp add: viewIdFromBuffId_def views_distinct)
  show "posFromBuffId h a = int (length (takeWhile (\<lambda>x. x \<noteq> a) (tabs h V)))"
    by (simp add: posFromBuffId_def va)
  show "posFromBuffId h' m = int (min k (length (tabs h V)))"
    using m(2) by (simp add: posFromBuffId_def vm' tV index_of_inserted)
  show "posFromBuffId h' a =
       (if length (takeWhile (\<lambda>x. x \<noteq> a) (tabs h V)) < k
        then int (length (takeWhile (\<lambda>x. x \<noteq> a) (tabs h V)))
        else int (length (takeWhile (\<lambda>x. x \<noteq> a) (tabs h V))) + 1)"
    using a(1) ne by (simp add: posFromBuffId_def va' tV index_after_insert)
qed

lemma updateMovedPos_cases:
  assumes "biasIs0 \<longleftrightarrow> viewIdFromBuffId h (buffId (file0 p)) = originalViewId (file0 p)"
    and "A = (if biasIs0 then file0 p else file1 p)"
    and "M = (if biasIs0 then file1 p else file0 p)"
    and "newPos = posFromBuffId h (buffId A)"
    and "update \<longleftrightarrow> relativePos p \<noteq> 0 \<and> originalPos A > originalPos M \<and>
                     newPos \<noteq> originalPos A \<and> newPos < originalPos M"
  shows "updateMovedPos p h =
     (if update then (if biasIs0 then p\<lparr>file1 := M\<lparr>originalPos := newPos\<rparr>\<rparr>
                      else p\<lparr>file0 := M\<lparr>originalPos := newPos\<rparr>\<rparr>)
      else p)"
  using assms by (auto simp add: updateMovedPos_def Let_def)

text \<open>
  Claim C9, as stated: when \<open>relativePos\<close> is not zero and the anchor file sits at another
  tab than its home, \<^verbatim>\<open>restoreFiles\<close> shifts the home position of the moved file by the
  same amount. It fails in the scenario of the spec: the old file, the anchor, has its home
  at tab 2 and the new file at tab 5 of the same view, \<open>relativePos\<close> is 3, and after a
  buffer at tab 1 was closed the anchor sits at tab 1. \<^verbatim>\<open>restoreFiles\<close> leaves the home
  position of the new file at 5, and the new file comes back at tab 5, not at tab 4.
\<close>

theorem restoreFiles_ignores_shift_of_anchor:
  "relativePos samplePair = 3 \<and>
   viewIdFromBuffId tabsAfterClose (buffId (file0 samplePair)) = originalViewId (file0 samplePair) \<and>
   originalPos (file0 samplePair) = 2 \<and>
   posFromBuffId tabsAfterClose (buffId (file0 samplePair)) = 1 \<and>
   originalPos (file1 samplePair) = 5 \<and>
   originalPos (file1 (fst (restoreFiles samplePair (- 1) tabsAfterClose))) = 5 \<and>
   tabs (snd (restoreFiles samplePair (- 1) tabsAfterClose)) MAIN_VIEW = [10, 7, 12, 13, 14, 8]"
  by (simp add: restoreFiles_def updateMovedPos_def restore_def Let_def samplePair_def sampleOldFile_def
        sampleNewFile_def tabsAfterClose_def viewIdFromBuffId_def posFromBuffId_def activateBufferID_def
        gotoAnotherView_def isOpen_def otherView_def MAIN_VIEW_def SUB_VIEW_def)

text \<open>
  Claim C9, amended. The bias file (the anchor) is \<^verbatim>\<open>file[0]\<close> when that file is in its
  original view, else \<^verbatim>\<open>file[1]\<close>; the other file is the moved one.
  \<^verbatim>\<open>restoreFiles\<close> sets the home position of the moved file to the tab position the anchor
  has now when \<open>relativePos\<close> is not zero, the home position of the anchor is greater than
  that of the moved file, and the anchor now sits at a tab that is not its home and lies
  before the home of the moved file; in every other case it leaves the pair as it is.
  Either way, when neither file is temporary, both have their home in the same view, with
  different home positions, the anchor is open in that view only and the moved file in the
  other view only, and the anchor sits at or before its home tab (buffers were closed, none
  opened before it), both files are in their home view after \<^verbatim>\<open>restoreFiles\<close> and the moved
  file comes before the anchor exactly when its home position is the smaller one: the two
  files are in the tab order they had before the compare.
\<close>

theorem restoreFiles_moved_home_and_tab_order:
  assumes bias: "biasIs0 \<longleftrightarrow> viewIdFromBuffId h (buffId (file0 p)) = originalViewId (file0 p)"
    and A: "A = (if biasIs0 then file0 p else file1 p)"
    and M: "M = (if biasIs0 then file1 p else file0 p)"
    and newPos: "newPos = posFromBuffId h (buffId A)"
    and upd: "update \<longleftrightarrow> relativePos p \<noteq> 0 \<and> originalPos A > originalPos M \<and>
                     newPos \<noteq> originalPos A \<and> newPos < originalPos M"
  shows "fst (restoreFiles p c h) =
       (if update then (if biasIs0 then p\<lparr>file1 := M\<lparr>originalPos := newPos\<rparr>\<rparr>
                        else p\<lparr>file0 := M\<lparr>originalPos := newPos\<rparr>\<rparr>)
        else p) \<and>
     (isTemp A = NO_TEMP \<and> isTemp M = NO_TEMP \<and> (V = MAIN_VIEW \<or> V = SUB_VIEW) \<and>
      originalViewId A = V \<and> originalViewId M = V \<and>
      buffId A \<in> set (tabs h V) \<and> buffId A \<notin> set (tabs h (otherView V)) \<and>
      buffId M \<in> set (tabs h (otherView V)) \<and> buffId M \<notin> set (tabs h V) \<and>
      relativePos p \<noteq> 0 \<and> originalPos A \<noteq> originalPos M \<and> 0 \<le> originalPos M \<and>
      newPos \<le> originalPos A \<longrightarrow>
        buffId A \<in> set (tabs (snd (restoreFiles p c h)) V) \<and>
        buffId M \<in> set (tabs (snd (restoreFiles p c h)) V) \<and>
        (posFromBuffId (snd (restoreFiles p c h)) (buffId M)
           < posFromBuffId (snd (restoreFiles p c h)) (buffId A)
         \<longleftrightarrow> originalPos M < originalPos A))"
proof (intro conjI impI)
  note p1 = updateMovedPos_cases [OF bias A M newPos upd]
  show "fst (restoreFiles p c h) =
       (if update then (if biasIs0 then p\<lparr>file1 := M\<lparr>originalPos := newPos\<rparr>\<rparr>
                        else p\<lparr>file0 := M\<lparr>originalPos := newPos\<rparr>\<rparr>)
        else p)"
    by (simp add: restoreFiles_def Let_def p1)
  assume H: "isTemp A = NO_TEMP \<and> isTemp M = NO_TEMP \<and> (V = MAIN_VIEW \<or> V = SUB_VIEW) \<and>
      originalViewId A = V \<and> originalViewId M = V \<and>
      buffId A \<in> set (tabs h V) \<and> buffId A \<notin> set (tabs h (otherView V)) \<and>
      buffId M \<in> set (tabs h (otherView V)) \<and> buffId M \<notin> set (tabs h V) \<and>
      relativePos p \<noteq> 0 \<and> originalPos A \<noteq> originalPos M \<and> 0 \<le> originalPos M \<and>
      newPos \<le> originalPos A"
  define mo' where "mo' = (if update then newPos else originalPos M)"
  define M1 where "M1 = M\<lparr>originalPos := mo'\<rparr>"
  define h' where "h' = snd (restoreFiles p c h)"
  define q where "q = length (takeWhile (\<lambda>x. x \<noteq> buffId A) (tabs h V))"
  have files: "file0 (updateMovedPos p h) = (if biasIs0 then A else M1)"
    "file1 (updateMovedPos p h) = (if biasIs0 then M1 else A)"
    using A M by (auto simp add: p1 M1_def mo'_def)
  have nn: "0 \<le> newPos" by (simp add: newPos posFromBuffId_def)
  with H have mo'_nn: "0 \<le> mo'" by (simp add: mo'_def)
  have M1: "isTemp M1 = NO_TEMP" "originalViewId M1 = V" "buffId M1 = buffId M" "originalPos M1 = mo'"
    using H by (simp_all add: M1_def)
  have both: "tabs (restore M1 (restore A h)) =
       (tabs h)(otherView V := removeAll (buffId M) (tabs h (otherView V)),
                V := take (nat mo') (tabs h V) @ buffId M # drop (nat mo') (tabs h V))"
    "tabs (restore A (restore M1 h)) =
       (tabs h)(otherView V := removeAll (buffId M) (tabs h (otherView V)),
                V := take (nat mo') (tabs h V) @ buffId M # drop (nat mo') (tabs h V))"
    using restore_both_tabs [of A M1 V h] H M1 mo'_nn by simp_all
  have t: "tabs h' =
       (tabs h)(otherView V := removeAll (buffId M) (tabs h (otherView V)),
                V := take (nat mo') (tabs h V) @ buffId M # drop (nat mo') (tabs h V))"
    unfolding h'_def restoreFiles_def Let_def getFileByBuffId_def getOtherFileByBuffId_def
    by (cases biasIs0) (simp_all add: files both)
  from H have facts: "V = MAIN_VIEW \<or> V = SUB_VIEW"
    "buffId A \<in> set (tabs h V)" "buffId A \<notin> set (tabs h (otherView V))"
    "buffId M \<in> set (tabs h (otherView V))" "buffId M \<notin> set (tabs h V)"
    by simp_all
  note pos = positions_after_restore [OF facts t]
  from pos(4,5) show "buffId A \<in> set (tabs (snd (restoreFiles p c h)) V)"
    "buffId M \<in> set (tabs (snd (restoreFiles p c h)) V)"
    by (simp_all add: h'_def)
  have qlt: "q < length (tabs h V)"
    unfolding q_def using facts(2) by (rule takeWhile_index_less)
  have np: "newPos = int q" using pos(1) by (simp add: newPos q_def)
  have pm: "posFromBuffId h' (buffId M) = int (min (nat mo') (length (tabs h V)))"
    by (rule pos(2))
  have pa: "posFromBuffId h' (buffId A) = (if q < nat mo' then int q else int q + 1)"
    using pos(3) by (simp add: q_def)
  have "posFromBuffId h' (buffId M) < posFromBuffId h' (buffId A) \<longleftrightarrow> originalPos M < originalPos A"
  proof (cases "originalPos M < originalPos A")
    case True
    show ?thesis
    proof (cases update)
      case True
      then have "mo' = int q" by (simp add: mo'_def np)
      with qlt \<open>originalPos M < originalPos A\<close> show ?thesis by (simp add: pm pa)
    next
      case False
      with True H upd have "int q = originalPos A \<or> originalPos M \<le> int q"
        by (auto simp add: np)
      with True have le: "originalPos M \<le> int q" by auto
      from False have "mo' = originalPos M" by (simp add: mo'_def)
      with le H have "nat mo' \<le> q" by simp
      with True show ?thesis by (simp add: pm pa)
    qed
  next
    case False
    with H have gt: "originalPos A < originalPos M" by simp
    then have "\<not> update" using upd by simp
    then have "mo' = originalPos M" by (simp add: mo'_def)
    moreover from H np have "int q \<le> originalPos A" by simp
    ultimately have "q < nat mo'" using gt by linarith
    with qlt False show ?thesis by (simp add: pm pa)
  qed
  then show "posFromBuffId (snd (restoreFiles p c h)) (buffId M)
           < posFromBuffId (snd (restoreFiles p c h)) (buffId A)
         \<longleftrightarrow> originalPos M < originalPos A"
    by (simp add: h'_def)
qed

theorem restoreFiles_moved_home_and_tab_order_witness:
  "fst (restoreFiles samplePair (- 1) tabsAfterClose) = samplePair \<and>
   \<not> posFromBuffId (snd (restoreFiles samplePair (- 1) tabsAfterClose)) 8
       < posFromBuffId (snd (restoreFiles samplePair (- 1) tabsAfterClose)) 7 \<and>
   fst (restoreFiles samplePair (- 1) tabsOldMoved) =
     samplePair\<lparr>file0 := sampleOldFile\<lparr>originalPos := 1\<rparr>\<rparr> \<and>
   posFromBuffId (snd (restoreFiles samplePair (- 1) tabsOldMoved)) 7
     < posFromBuffId (snd (restoreFiles samplePair (- 1) tabsOldMoved)) 8"
proof -
  have f: "file0 samplePair = sampleOldFile" "file1 samplePair = sampleNewFile"
    "relativePos samplePair = 3"
    by (simp_all add: samplePair_def)
  have old: "buffId sampleOldFile = 7" "originalViewId sampleOldFile = 0" "originalPos sampleOldFile = 2"
    "isTemp sampleOldFile = NO_TEMP"
    by (simp_all add: sampleOldFile_def)
  have new: "buffId sampleNewFile = 8" "originalViewId sampleNewFile = 0" "originalPos sampleNewFile = 5"
    "isTemp sampleNewFile = NO_TEMP"
    by (simp_all add: sampleNewFile_def)
  have v1: "viewIdFromBuffId tabsAfterClose 7 = 0" "posFromBuffId tabsAfterClose 7 = 1"
    by (simp_all add: viewIdFromBuffId_def posFromBuffId_def tabsAfterClose_def MAIN_VIEW_def SUB_VIEW_def)
  have v2: "viewIdFromBuffId tabsOldMoved 7 = 1" "viewIdFromBuffId tabsOldMoved 8 = 0"
    "posFromBuffId tabsOldMoved 8 = 1"
    by (simp_all add: viewIdFromBuffId_def posFromBuffId_def tabsOldMoved_def MAIN_VIEW_def SUB_VIEW_def)
  have t1: "tabs tabsAfterClose 0 = [10, 7, 12, 13, 14]" "tabs tabsAfterClose (otherView 0) = [8]"
    by (simp_all add: tabsAfterClose_def otherView_def MAIN_VIEW_def SUB_VIEW_def)
  have t2: "tabs tabsOldMoved 0 = [10, 8]" "tabs tabsOldMoved (otherView 0) = [7]"
    by (simp_all add: tabsOldMoved_def otherView_def MAIN_VIEW_def SUB_VIEW_def)
  have a: "True \<longleftrightarrow> viewIdFromBuffId tabsAfterClose (buffId (file0 samplePair)) = originalViewId (file0 samplePair)"
    by (simp add: f old v1)
  have a_upd: "False \<longleftrightarrow> relativePos samplePair \<noteq> 0 \<and> originalPos sampleOldFile > originalPos sampleNewFile \<and>
                     1 \<noteq> originalPos sampleOldFile \<and> 1 < originalPos sampleNewFile"
    by (simp add: old new)
  from restoreFiles_moved_home_and_tab_order
         [of True tabsAfterClose samplePair sampleOldFile sampleNewFile 1 False "- 1" 0, OF a]
       a_upd
  have c1: "fst (restoreFiles samplePair (- 1) tabsAfterClose) = samplePair"
    and c2: "\<not> posFromBuffId (snd (restoreFiles samplePair (- 1) tabsAfterClose)) 8
       < posFromBuffId (snd (restoreFiles samplePair (- 1) tabsAfterClose)) 7"
    by (simp_all add: f old new v1 t1 MAIN_VIEW_def)
  have b: "False \<longleftrightarrow> viewIdFromBuffId tabsOldMoved (buffId (file0 samplePair)) = originalViewId (file0 samplePair)"
    by (simp add: f old v2)
  have b_upd: "True \<longleftrightarrow> relativePos samplePair \<noteq> 0 \<and> originalPos sampleNewFile > originalPos sampleOldFile \<and>
                     1 \<noteq> originalPos sampleNewFile \<and> 1 < originalPos sampleOldFile"
    by (simp add: f old new)
  from restoreFiles_moved_home_and_tab_order
         [of False tabsOldMoved samplePair sampleNewFile sampleOldFile 1 True "- 1" 0, OF b]
       b_upd
  have c3: "fst (restoreFiles samplePair (- 1) tabsOldMoved) =
     samplePair\<lparr>file0 := sampleOldFile\<lparr>originalPos := 1\<rparr>\<rparr>"
    and c4: "posFromBuffId (snd (restoreFiles samplePair (- 1) tabsOldMoved)) 7
     < posFromBuffId (snd (restoreFiles samplePair (- 1) tabsOldMoved)) 8"
    by (simp_all add: f old new v2 t2 MAIN_VIEW_def)
  from c1 c2 c3 c4 show ?thesis by blast
qed

section \<open>Properties of the compare command\<close>







lemma positionFiles_isTemp:
  "isTemp (getOldFile (positionFiles S E p)) = isTemp (getOldFile p) \<and>
   buffId (getNewFile (positionFiles S E p)) = buffId (getNewFile p)"
  by (simp add: positionFiles_def updateView_def Let_def getOldFile_def getNewFile_def)









end
